theory Spec2Isabelle
  imports Main "HOL-Library.Word"
begin

unbundle bit_operations_syntax

section \<open>Bytes, buffers and errors\<close>

text \<open>
  A Node \<open>Buffer\<close> is a sequence of 8-bit bytes. Every \<open>throw\<close> of the source is a
  value of \<open>error\<close>; the constructors keep the exception class (\<open>Error\<close> or
  \<open>RangeError\<close>) and the message of the source. \<open>RangeError_buffer\<close> stands for the
  \<open>RangeError\<close>s raised by Node's own Buffer primitives (\<open>readUInt8\<close> outside the buffer,
  \<open>Buffer.alloc\<close> with a negative size, \<open>swap64\<close> on a length that is not a multiple of 8);
  \<open>RangeError_not_an_integer\<close> is what the big-integer facility raises when it is handed a
  JavaScript number that is \<open>Infinity\<close> or \<open>NaN\<close>.
\<close>

type_synonym byte = "8 word"
type_synonym buffer = "byte list"

datatype error =
    Error_bits_multiple_of_8
  | Error_not_enough_bytes
  | Error_unknown_data_type
  | Error_cannot_read_int64
  | Error_invalid_digit
  | RangeError_out_of_bounds
  | RangeError_could_not_decode_varint
  | RangeError_signed_in_unsigned
  | RangeError_value_out_of_range
  | RangeError_value_is_out_of_range
  | RangeError_buffer
  | RangeError_not_an_integer

fun is_RangeError :: "error \<Rightarrow> bool" where
  "is_RangeError RangeError_out_of_bounds = True"
| "is_RangeError RangeError_could_not_decode_varint = True"
| "is_RangeError RangeError_signed_in_unsigned = True"
| "is_RangeError RangeError_value_out_of_range = True"
| "is_RangeError RangeError_value_is_out_of_range = True"
| "is_RangeError RangeError_buffer = True"
| "is_RangeError RangeError_not_an_integer = True"
| "is_RangeError _ = False"

subsection \<open>Hexadecimal strings\<close>

text \<open>
  \<open>hexdigit\<close> is the digit alphabet of \<open>Buffer.toString('hex')\<close> and of
  \<open>BigInteger.toString(16)\<close> (lower case); \<open>hexval\<close> is the digit value accepted by
  \<open>Buffer.from(s, 'hex')\<close> and by \<open>BigInteger(s, 16)\<close> (either case).
\<close>

definition hexdigit :: "nat \<Rightarrow> char" where
  "hexdigit d = ''0123456789abcdef'' ! (d mod 16)"

definition hexval :: "char \<Rightarrow> nat option" where
  "hexval c = map_of
     [(CHR ''0'', 0), (CHR ''1'', 1), (CHR ''2'', 2), (CHR ''3'', 3), (CHR ''4'', 4),
      (CHR ''5'', 5), (CHR ''6'', 6), (CHR ''7'', 7), (CHR ''8'', 8), (CHR ''9'', 9),
      (CHR ''a'', 10), (CHR ''b'', 11), (CHR ''c'', 12), (CHR ''d'', 13), (CHR ''e'', 14),
      (CHR ''f'', 15), (CHR ''A'', 10), (CHR ''B'', 11), (CHR ''C'', 12), (CHR ''D'', 13),
      (CHR ''E'', 14), (CHR ''F'', 15)] c"

text \<open>\<open>Buffer.from(s, 'hex')\<close>: two digits per byte; decoding stops at the first pair that
  is not two hexadecimal digits, and a trailing single character is dropped.\<close>

fun Buffer_from_hex :: "string \<Rightarrow> buffer" where
  "Buffer_from_hex (c1 # c2 # cs) =
     (case (hexval c1, hexval c2) of
        (Some a, Some b) \<Rightarrow> of_nat (16 * a + b) # Buffer_from_hex cs
      | _ \<Rightarrow> [])"
| "Buffer_from_hex _ = []"

text \<open>\<open>buf.toString('hex')\<close>: two lower-case digits per byte.\<close>

definition hex_of_byte :: "byte \<Rightarrow> string" where
  "hex_of_byte b = [hexdigit (unat b div 16), hexdigit (unat b mod 16)]"

definition Buffer_toString_hex :: "buffer \<Rightarrow> string" where
  "Buffer_toString_hex buf = concat (map hex_of_byte buf)"

text \<open>\<open>Buffer.from(JSON.stringify(payload))\<close>: the bytes of a text.\<close>

definition Buffer_from_text :: "string \<Rightarrow> buffer" where
  "Buffer_from_text s = map (\<lambda>c. of_nat (of_char c)) s"

text \<open>\<open>s.padStart(n, '0')\<close>: nothing is added (and nothing cut) when \<open>s\<close> already has
  \<open>n\<close> characters or more.\<close>

definition padStart :: "int \<Rightarrow> char \<Rightarrow> string \<Rightarrow> string" where
  "padStart n c s = replicate (nat n - length s) c @ s"

subsection \<open>The arbitrary-precision integer facility\<close>

text \<open>
  \<open>BigInteger\<close> values are modelled as \<open>int\<close>. \<open>value.toString(16)\<close> prints the digits of
  the magnitude without leading zeros (\<open>"0"\<close> for zero) behind a minus sign for a
  negative value. \<open>BigInteger(s, 16)\<close> parses an optional leading minus sign and
  hexadecimal digits and throws on any other character; the empty string parses to 0.
\<close>

fun hex_digits :: "nat \<Rightarrow> string" where
  "hex_digits n = (if n = 0 then [] else hex_digits (n div 16) @ [hexdigit (n mod 16)])"

declare hex_digits.simps [simp del]

definition BigInteger_toString16 :: "int \<Rightarrow> string" where
  "BigInteger_toString16 v =
     (if v = 0 then ''0''
      else if v < 0 then CHR ''-'' # hex_digits (nat (- v))
      else hex_digits (nat v))"

fun parse_digits16 :: "int \<Rightarrow> string \<Rightarrow> error + int" where
  "parse_digits16 acc [] = Inr acc"
| "parse_digits16 acc (c # cs) =
     (case hexval c of
        None \<Rightarrow> Inl Error_invalid_digit
      | Some d \<Rightarrow> parse_digits16 (acc * 16 + int d) cs)"

definition BigInteger_parse16 :: "string \<Rightarrow> error + int" where
  "BigInteger_parse16 s =
     (case s of
        c # cs \<Rightarrow>
          if c = CHR ''-'' then map_sum id uminus (parse_digits16 0 cs)
          else parse_digits16 0 s
      | [] \<Rightarrow> Inr 0)"

subsection \<open>Buffer primitives\<close>

text \<open>\<open>buf.slice(start, end)\<close>: a negative index counts from the end, both indices are
  clamped to the buffer, and the result is empty when \<open>end\<close> is not after \<open>start\<close>.\<close>

definition clamp_index :: "nat \<Rightarrow> int \<Rightarrow> nat" where
  "clamp_index len i = (if i < 0 then nat (max 0 (int len + i)) else min len (nat i))"

definition Buffer_slice :: "buffer \<Rightarrow> int \<Rightarrow> int \<Rightarrow> buffer" where
  "Buffer_slice buf start end =
     (let s = clamp_index (length buf) start; e = clamp_index (length buf) end
      in take (e - s) (drop s buf))"

definition Buffer_slice_from :: "buffer \<Rightarrow> int \<Rightarrow> buffer" where
  "Buffer_slice_from buf start = Buffer_slice buf start (int (length buf))"

text \<open>\<open>Buffer.alloc(n)\<close>: \<open>n\<close> zero bytes; a negative size is a \<open>RangeError\<close>.\<close>

definition Buffer_alloc :: "int \<Rightarrow> error + buffer" where
  "Buffer_alloc n = (if n < 0 then Inl RangeError_buffer else Inr (replicate (nat n) 0))"

text \<open>\<open>buf.readUInt8(offset)\<close>: a \<open>RangeError\<close> outside \<open>0 .. length - 1\<close>.\<close>

definition Buffer_readUInt8 :: "buffer \<Rightarrow> int \<Rightarrow> error + byte" where
  "Buffer_readUInt8 buf offset =
     (if 0 \<le> offset \<and> offset < int (length buf) then Inr (buf ! nat offset)
      else Inl RangeError_buffer)"

text \<open>\<open>buf.swap64()\<close>: reverses each group of 8 bytes; a \<open>RangeError\<close> when the length is
  not a multiple of 8.\<close>

fun swap64_groups :: "nat \<Rightarrow> buffer \<Rightarrow> buffer" where
  "swap64_groups 0 buf = []"
| "swap64_groups (Suc k) buf = rev (take 8 buf) @ swap64_groups k (drop 8 buf)"

definition Buffer_swap64 :: "buffer \<Rightarrow> error + buffer" where
  "Buffer_swap64 buf =
     (if length buf mod 8 \<noteq> 0 then Inl RangeError_buffer
      else Inr (swap64_groups (length buf div 8) buf))"

text \<open>The loop shared by \<open>writeUIntLE\<close> and \<open>readUIntLE\<close>:
  \<^verbatim>\<open>for (const slice of buf) { tempBuffer[position] = slice; position -= 1; }\<close>
  A store at an index outside the typed array is ignored.\<close>

fun reverse_into :: "buffer \<Rightarrow> int \<Rightarrow> buffer \<Rightarrow> buffer" where
  "reverse_into tempBuffer position [] = tempBuffer"
| "reverse_into tempBuffer position (b # bs) =
     reverse_into
       (if 0 \<le> position \<and> position < int (length tempBuffer)
        then tempBuffer[nat position := b] else tempBuffer)
       (position - 1) bs"


subsection \<open>JavaScript numbers\<close>

text \<open>
  \<open>Math.pow(2, e)\<close> and the product \<open>m * Math.pow(2, e)\<close> are IEEE doubles. For the
  7-bit factor \<open>m\<close> of \<open>Varint.decode\<close> the product is exact as long as it is below
  \<open>2 ^ 1024\<close>; from there on it is \<open>Infinity\<close> (\<open>NaN\<close> for \<open>0 * Infinity\<close>), written
  \<open>None\<close>, which \<open>BigInteger.add\<close> refuses with a \<open>RangeError\<close>. A finite product is an
  integer, and \<open>BigInteger.add\<close> takes it over exactly.
\<close>

definition Math_pow2 :: "nat \<Rightarrow> int option" where
  "Math_pow2 e = (if e < 1024 then Some (2 ^ e) else None)"

definition js_times :: "int \<Rightarrow> int option \<Rightarrow> int option" where
  "js_times m p =
     (case p of
        None \<Rightarrow> None
      | Some v \<Rightarrow> if m * v < 2 ^ 1024 then Some (m * v) else None)"

text \<open>A \<open>Date\<close> holds whole milliseconds since the epoch, at most 8.64e15 in magnitude, or
  is invalid (its time value is \<open>NaN\<close>).\<close>

datatype Date = Date int | Invalid_Date

definition new_Date :: "int \<Rightarrow> Date" where
  "new_Date ms = (if \<bar>ms\<bar> \<le> 8640000000000000 then Date ms else Invalid_Date)"

section \<open>Varint codec (varint.ts)\<close>

text \<open>
  \<open>Varint.decode\<close>: the \<open>do ... while (b >= 0x80)\<close> loop, with \<open>counter\<close>, \<open>shift\<close>
  and \<open>result\<close> as arguments. \<open>(b & 0x7f) << shift\<close> is a 32-bit signed operation.
\<close>

function decode_loop :: "buffer \<Rightarrow> nat \<Rightarrow> nat \<Rightarrow> int \<Rightarrow> error + int" where
  "decode_loop buf counter shift result =
     (if counter \<ge> length buf then Inl RangeError_could_not_decode_varint
      else
        let b = buf ! counter in
        (case (if shift < 28
               then Some (sint (push_bit shift (ucast (b AND 0x7f) :: 32 word)))
               else js_times (uint (b AND 0x7f)) (Math_pow2 shift)) of
           None \<Rightarrow> Inl RangeError_not_an_integer
         | Some v \<Rightarrow>
             if b \<ge> 0x80 then decode_loop buf (counter + 1) (shift + 7) (result + v)
             else Inr (result + v)))"
  by pat_completeness auto
termination
  by (relation "measure (\<lambda>(buf, counter, shift, result). length buf - counter)") auto

declare decode_loop.simps [simp del]

definition Varint_decode :: "buffer \<Rightarrow> error + int" where
  "Varint_decode buf = decode_loop buf 0 0 0"

text \<open>
  \<open>Varint.encode\<close>: two \<open>while\<close> loops that push onto \<open>out\<close>, then the last element;
  \<open>Buffer.from(out)\<close> keeps the low 8 bits of each element. The elements are the numbers
  \<open>toJSNumber()\<close> returns, taken as exact here: they are below \<open>2 ^ 31\<close> for every
  non-negative \<open>num\<close>, and exact for a negative \<open>num\<close> down to \<open>- (2 ^ 53)\<close>.
\<close>

function encode_loop1 :: "int \<Rightarrow> int list \<Rightarrow> int \<times> int list" where
  "encode_loop1 num out =
     (if num \<ge> 2 ^ 31 then encode_loop1 (num div 128) (out @ [(num AND 0xFF) OR 0x80])
      else (num, out))"
  by pat_completeness auto
termination
  by (relation "measure (\<lambda>(num, out). nat num)") auto

declare encode_loop1.simps [simp del]

function encode_loop2 :: "int \<Rightarrow> int list \<Rightarrow> int \<times> int list" where
  "encode_loop2 num out =
     (if num AND NOT 0x7F > 0
      then encode_loop2 (drop_bit 7 num) (out @ [(num AND 0xFF) OR 0x80])
      else (num, out))"
  by pat_completeness auto
termination
proof (relation "measure (\<lambda>(num, out). nat num)")
  fix num :: int and out :: "int list"
  assume pos: "0 < num AND NOT 0x7F"
  have "0 < num"
  proof (rule ccontr)
    assume "\<not> 0 < num"
    then consider "num = 0" | "num < 0" by linarith
    then show False
    proof cases
      case 1
      with pos show False by simp
    next
      case 2
      have "(NOT 0x7F :: int) < 0" by simp
      with 2 have "num AND NOT 0x7F < 0" by (simp only: and_negative_int_iff)
      with pos show False by linarith
    qed
  qed
  then have "num div 128 < num" by simp
  then show "((drop_bit 7 num, out @ [(num AND 0xFF) OR 0x80]), (num, out))
              \<in> measure (\<lambda>(num, out). nat num)"
    using \<open>0 < num\<close> by (simp add: drop_bit_eq_div)
qed simp

declare encode_loop2.simps [simp del]

definition Varint_encode :: "int \<Rightarrow> buffer" where
  "Varint_encode num =
     (let (num1, out1) = encode_loop1 num [];
          (num2, out2) = encode_loop2 num1 out1
      in map word_of_int (out2 @ [num2 OR 0]))"


section \<open>Reader and Writer state\<close>

text \<open>
  \<open>Reader\<close> holds \<open>m_buffer\<close> and \<open>m_current_offset\<close>; the offset is any integer, since
  \<open>reset\<close>, \<open>skip\<close> and the positional reads set it without a check. \<open>Writer\<close> holds
  its own \<open>m_buffer\<close> and \<open>m_readIndex\<close>, the fields \<open>w_buffer\<close> and \<open>w_readIndex\<close>
  here. Every method takes the object and returns its result, or the exception it throws,
  together with the object as the call leaves it.
\<close>

record Reader =
  m_buffer :: buffer
  m_current_offset :: int

record Writer =
  w_buffer :: buffer
  w_readIndex :: int

text \<open>The argument of \<open>Writer.write\<close>, \<open>Writer.hash\<close> and \<open>Writer.hex\<close>: another
  writer or reader, a \<open>Buffer\<close>, a string, or any other value (given by its
  \<open>JSON.stringify\<close> text). The argument of \<open>new Reader\<close> and \<open>Reader.append\<close>
  has a \<open>Uint8Array\<close> case of its own. String lengths count characters; the encoding
  argument is left at its default \<open>'hex'\<close>.\<close>

datatype payload =
    PWriter Writer
  | PReader Reader
  | PBuffer buffer
  | PString string
  | POther string

datatype blob =
    BReader Reader
  | BWriter Writer
  | BBuffer buffer
  | BUint8Array buffer
  | BString string
  | BOther

section \<open>Writer (writer.ts)\<close>

definition Writer_new :: Writer where
  "Writer_new = \<lparr>w_buffer = [], w_readIndex = 0\<rparr>"

definition Writer_blob :: "Writer \<Rightarrow> string" where
  "Writer_blob w = Buffer_toString_hex (w_buffer w)"

definition Writer_length :: "Writer \<Rightarrow> int" where
  "Writer_length w = int (length (w_buffer w))"

definition Writer_clear :: "Writer \<Rightarrow> Writer" where
  "Writer_clear w = w\<lparr>w_buffer := []\<rparr>"

text \<open>\<open>write\<close>: the inner \<open>write\<close> closure concatenates and returns \<open>true\<close>.\<close>

definition Writer_write :: "Writer \<Rightarrow> payload \<Rightarrow> (error + bool) \<times> Writer" where
  "Writer_write w p =
     (let write = (\<lambda>buffer. (Inr True, w\<lparr>w_buffer := w_buffer w @ buffer\<rparr>))
      in case p of
           PWriter x \<Rightarrow> write (w_buffer x)
         | PReader x \<Rightarrow> write (m_buffer x)
         | PBuffer b \<Rightarrow> write b
         | PString s \<Rightarrow> write (Buffer_from_hex s)
         | POther json \<Rightarrow> write (Buffer_from_text json))"


definition Writer_hex :: "Writer \<Rightarrow> payload \<Rightarrow> (error + bool) \<times> Writer" where
  "Writer_hex w hex =
     (case hex of
        PBuffer b \<Rightarrow> Writer_write w (PBuffer b)
      | PString s \<Rightarrow> Writer_write w (PString s)
      | _ \<Rightarrow> (Inr False, w))"

text \<open>\<open>determineBits\<close>: the scan over the byte counts 1, 2, 4, ..., 1024.\<close>

fun determineBits_loop :: "int \<Rightarrow> int list \<Rightarrow> error + int" where
  "determineBits_loop v [] = Inl RangeError_value_is_out_of_range"
| "determineBits_loop v (byte # bytes) =
     (let check = (if v > - 1 then 2 ^ nat (byte * 8) - 1
                   else \<bar>2 ^ nat (byte * 8 - 1) - 1\<bar>)
      in if v \<le> check then Inr (byte * 8) else determineBits_loop v bytes)"

definition determineBits :: "int \<Rightarrow> error + int" where
  "determineBits v = determineBits_loop v [1, 2, 4, 8, 16, 32, 64, 128, 256, 512, 1024]"

definition writeUIntBE :: "int \<Rightarrow> int \<Rightarrow> buffer" where
  "writeUIntBE v bytes =
     (let hex = padStart (bytes * 2) (CHR ''0'') (BigInteger_toString16 v)
      in Buffer_from_hex hex)"

definition writeUIntLE :: "int \<Rightarrow> int \<Rightarrow> error + buffer" where
  "writeUIntLE v bytes =
     (let hex = padStart (bytes * 2) (CHR ''0'') (BigInteger_toString16 v);
          buffer = Buffer_from_hex hex
      in (case Buffer_alloc bytes of
            Inl e \<Rightarrow> Inl e
          | Inr tempBuffer \<Rightarrow> Inr (reverse_into tempBuffer (bytes - 1) buffer)))"

text \<open>\<open>uint_t\<close>: \<open>bits\<close> is \<open>None\<close> when the argument is omitted; \<open>!bits\<close> also holds
  for an explicit 0.\<close>

definition Writer_uint_t :: "Writer \<Rightarrow> int \<Rightarrow> int option \<Rightarrow> bool \<Rightarrow> (error + bool) \<times> Writer" where
  "Writer_uint_t w v bits be =
     (if v < 0 then (Inl RangeError_signed_in_unsigned, w)
      else
        case (case bits of
                None \<Rightarrow> determineBits v
              | Some b \<Rightarrow> if b = 0 then determineBits v else Inr b) of
          Inl e \<Rightarrow> (Inl e, w)
        | Inr b \<Rightarrow>
            if b mod 8 \<noteq> 0 then (Inl Error_bits_multiple_of_8, w)
            else
              let bytes = b div 8 in
              (case (if be then Inr (writeUIntBE v bytes) else writeUIntLE v bytes) of
                 Inl e \<Rightarrow> (Inl e, w)
               | Inr buf \<Rightarrow> (Inr True, snd (Writer_write w (PBuffer buf)))))"

definition Writer_uint8_t :: "Writer \<Rightarrow> int \<Rightarrow> (error + bool) \<times> Writer" where
  "Writer_uint8_t w v = Writer_uint_t w v (Some 8) False"

definition Writer_uint64_t :: "Writer \<Rightarrow> int \<Rightarrow> bool \<Rightarrow> (error + bool) \<times> Writer" where
  "Writer_uint64_t w v be = Writer_uint_t w v (Some 64) be"

text \<open>\<open>time_t\<close>: \<open>Math.floor(value.getTime() / 1000)\<close> of a valid date is the floor
  quotient of its milliseconds; an invalid date gives \<open>NaN\<close>, which \<open>BigInteger\<close>
  refuses. The method returns nothing.\<close>

definition Writer_time_t :: "Writer \<Rightarrow> Date \<Rightarrow> bool \<Rightarrow> (error + unit) \<times> Writer" where
  "Writer_time_t w d be =
     (case d of
        Invalid_Date \<Rightarrow> (Inl RangeError_not_an_integer, w)
      | Date ms \<Rightarrow>
          let num = ms div 1000;
              hex = padStart 16 (CHR ''0'') (BigInteger_toString16 num)
          in (case (if be then Buffer_swap64 (Buffer_from_hex hex)
                    else Inr (Buffer_from_hex hex)) of
                Inl e \<Rightarrow> (Inl e, w)
              | Inr buffer \<Rightarrow> (Inr (), snd (Writer_write w (PBuffer buffer)))))"

text \<open>\<open>varint\<close>, Levin branch: \<open>value << 2\<close>, \<open>|=\<close> and \<open>>>\<close> are 32-bit signed
  operations on the number \<open>value.toJSNumber()\<close> (exact up to \<open>2 ^ 53\<close> in magnitude); the
  \<open>for\<close> loop writes \<open>byteCount\<close> bytes with \<open>uint8_t\<close>.\<close>

function levin_write_loop :: "Writer \<Rightarrow> 32 word \<Rightarrow> nat \<Rightarrow> nat \<Rightarrow> (error + bool) \<times> Writer" where
  "levin_write_loop w tempValue i byteCount =
     (if i < byteCount then
        (case Writer_uint8_t w (sint (signed_drop_bit (i * 8) tempValue AND 0xFF)) of
           (Inl e, w') \<Rightarrow> (Inl e, w')
         | (Inr ok, w') \<Rightarrow> levin_write_loop w' tempValue (i + 1) byteCount)
      else (Inr True, w))"
  by pat_completeness auto
termination
  by (relation "measure (\<lambda>(w, tempValue, i, byteCount). byteCount - i)") auto

declare levin_write_loop.simps [simp del]

definition Writer_varint :: "Writer \<Rightarrow> int \<Rightarrow> bool \<Rightarrow> (error + bool) \<times> Writer" where
  "Writer_varint w v levin =
     (if \<not> levin then (Inr True, snd (Writer_write w (PBuffer (Varint_encode v))))
      else if v > 1073741823 then (Inl RangeError_value_out_of_range, w)
      else
        let tempValue = push_bit 2 (word_of_int v :: 32 word) in
        if v \<le> 63 then levin_write_loop w (tempValue OR 0) 0 1
        else if v \<le> 16383 then levin_write_loop w (tempValue OR 1) 0 2
        else levin_write_loop w (tempValue OR 2) 0 4)"


section \<open>Reader (reader.ts)\<close>

text \<open>\<open>new Reader(blob)\<close>. Given a reader the constructor returns that very object; in this
  value model that is the same state.\<close>

definition Reader_new :: "blob \<Rightarrow> error + Reader" where
  "Reader_new b =
     (case b of
        BReader r \<Rightarrow> Inr r
      | BWriter w \<Rightarrow> Inr \<lparr>m_buffer = w_buffer w, m_current_offset = 0\<rparr>
      | BBuffer buf \<Rightarrow> Inr \<lparr>m_buffer = buf, m_current_offset = 0\<rparr>
      | BString s \<Rightarrow> Inr \<lparr>m_buffer = Buffer_from_hex s, m_current_offset = 0\<rparr>
      | _ \<Rightarrow> Inl Error_unknown_data_type)"

definition Reader_length :: "Reader \<Rightarrow> int" where
  "Reader_length r = int (length (m_buffer r))"

definition Reader_offset :: "Reader \<Rightarrow> int" where
  "Reader_offset r = m_current_offset r"

definition Reader_unreadBytes :: "Reader \<Rightarrow> int" where
  "Reader_unreadBytes r =
     (let unreadBytes = Reader_length r - Reader_offset r
      in if unreadBytes \<ge> 0 then unreadBytes else 0)"

definition Reader_unreadBuffer :: "Reader \<Rightarrow> buffer" where
  "Reader_unreadBuffer r = Buffer_slice_from (m_buffer r) (Reader_offset r)"

definition Reader_append :: "Reader \<Rightarrow> blob \<Rightarrow> (error + unit) \<times> Reader" where
  "Reader_append r b =
     (let app = (\<lambda>buffer. (Inr (), r\<lparr>m_buffer := m_buffer r @ buffer\<rparr>))
      in case b of
           BReader x \<Rightarrow> app (m_buffer x)
         | BWriter x \<Rightarrow> app (w_buffer x)
         | BBuffer buf \<Rightarrow> app buf
         | BUint8Array buf \<Rightarrow> app buf
         | BString s \<Rightarrow>
             if length s mod 2 = 0 then app (Buffer_from_hex s)
             else (Inl Error_unknown_data_type, r)
         | BOther \<Rightarrow> (Inl Error_unknown_data_type, r))"

definition Reader_bytes :: "Reader \<Rightarrow> int \<Rightarrow> (error + buffer) \<times> Reader" where
  "Reader_bytes r count =
     (let start = Reader_offset r;
          r' = r\<lparr>m_current_offset := m_current_offset r + count\<rparr>
      in (Inr (Buffer_slice (m_buffer r') start (Reader_offset r')), r'))"

definition Reader_compact :: "Reader \<Rightarrow> int option \<Rightarrow> Reader" where
  "Reader_compact r offset =
     (case offset of
        None \<Rightarrow> \<lparr>m_buffer = Buffer_slice_from (m_buffer r) (Reader_offset r),
                  m_current_offset = 0\<rparr>
      | Some off \<Rightarrow> \<lparr>m_buffer = Buffer_slice_from (m_buffer r) off, m_current_offset = 0\<rparr>)"

definition Reader_hash :: "Reader \<Rightarrow> int \<Rightarrow> (error + string) \<times> Reader" where
  "Reader_hash r len =
     (let start = Reader_offset r;
          r' = r\<lparr>m_current_offset := m_current_offset r + len\<rparr>
      in (Inr (Buffer_toString_hex (Buffer_slice (m_buffer r') start (m_current_offset r'))), r'))"

definition Reader_hex :: "Reader \<Rightarrow> int \<Rightarrow> (error + string) \<times> Reader" where
  "Reader_hex r count =
     (let start = Reader_offset r;
          r' = r\<lparr>m_current_offset := m_current_offset r + count\<rparr>
      in (Inr (Buffer_toString_hex (Buffer_slice (m_buffer r') start (Reader_offset r'))), r'))"

text \<open>\<open>readInt8\<close>, \<open>readInt16BE/LE\<close>, \<open>readInt32BE/LE\<close> of Node: the two's complement value
  of \<open>n\<close> bytes at \<open>offset\<close>, a \<open>RangeError\<close> when they are not all inside the buffer.\<close>

definition Buffer_readInt :: "buffer \<Rightarrow> nat \<Rightarrow> bool \<Rightarrow> int \<Rightarrow> error + int" where
  "Buffer_readInt buf n be offset =
     (if 0 \<le> offset \<and> offset + int n \<le> int (length buf) then
        let bs = take n (drop (nat offset) buf);
            u = foldl (\<lambda>acc b. acc * 256 + uint b) 0 (if be then bs else rev bs)
        in Inr (signed_take_bit (8 * n - 1) u)
      else Inl RangeError_buffer)"

definition Reader_int_t :: "Reader \<Rightarrow> int \<Rightarrow> bool \<Rightarrow> (error + int) \<times> Reader" where
  "Reader_int_t r bits be =
     (if bits mod 8 \<noteq> 0 then (Inl Error_bits_multiple_of_8, r)
      else
        let bytes = bits div 8 in
        if Reader_unreadBytes r < bytes then (Inl Error_not_enough_bytes, r)
        else
          let start = Reader_offset r;
              r' = r\<lparr>m_current_offset := m_current_offset r + bytes\<rparr>
          in if bytes = 1 then (Buffer_readInt (m_buffer r') 1 be start, r')
             else if bytes = 2 then (Buffer_readInt (m_buffer r') 2 be start, r')
             else if bytes = 4 then (Buffer_readInt (m_buffer r') 4 be start, r')
             else (Inl Error_cannot_read_int64, r'))"

definition Reader_reset :: "Reader \<Rightarrow> int \<Rightarrow> Reader" where
  "Reader_reset r offset = r\<lparr>m_current_offset := offset\<rparr>"

definition Reader_skip :: "Reader \<Rightarrow> int \<Rightarrow> Reader" where
  "Reader_skip r count = r\<lparr>m_current_offset := m_current_offset r + count\<rparr>"

text \<open>\<open>time_t\<close>: \<open>this.bytes(8)\<close> is a view of the reader's own buffer and \<open>swap64\<close>
  works in place, so a big-endian read leaves the bytes it has read reversed in
  \<open>m_buffer\<close>.\<close>

definition Buffer_store :: "buffer \<Rightarrow> int \<Rightarrow> buffer \<Rightarrow> buffer" where
  "Buffer_store buf start bs =
     (let s = clamp_index (length buf) start
      in take s buf @ bs @ drop (s + length bs) buf)"

definition Reader_time_t :: "Reader \<Rightarrow> bool \<Rightarrow> (error + Date) \<times> Reader" where
  "Reader_time_t r be =
     (case Reader_bytes r 8 of
        (Inl e, r') \<Rightarrow> (Inl e, r')
      | (Inr bs, r') \<Rightarrow>
          (case (if be then Buffer_swap64 bs else Inr bs) of
             Inl e \<Rightarrow> (Inl e, r')
           | Inr buffer \<Rightarrow>
               let r'' = (if be then r'\<lparr>m_buffer := Buffer_store (m_buffer r')
                                                    (Reader_offset r) buffer\<rparr>
                          else r')
               in (case BigInteger_parse16 (Buffer_toString_hex buffer) of
                     Inl e \<Rightarrow> (Inl e, r'')
                   | Inr epoch \<Rightarrow> (Inr (new_Date (epoch * 1000)), r''))))"

definition readUIntBE :: "buffer \<Rightarrow> int \<Rightarrow> int \<Rightarrow> error + int" where
  "readUIntBE buffer bytes offset =
     (if int (length buffer) < offset + bytes then Inl RangeError_out_of_bounds
      else
        let slice = Buffer_slice buffer offset (offset + bytes)
        in BigInteger_parse16 (Buffer_toString_hex slice))"

definition readUIntLE :: "buffer \<Rightarrow> int \<Rightarrow> int \<Rightarrow> error + int" where
  "readUIntLE buffer bytes offset =
     (if int (length buffer) < offset + bytes then Inl RangeError_out_of_bounds
      else
        let buf = Buffer_slice buffer offset (offset + bytes)
        in (case Buffer_alloc bytes of
              Inl e \<Rightarrow> Inl e
            | Inr tempBuffer \<Rightarrow>
                BigInteger_parse16
                  (Buffer_toString_hex (reverse_into tempBuffer (bytes - 1) buf))))"

definition Reader_uint_t :: "Reader \<Rightarrow> int \<Rightarrow> bool \<Rightarrow> (error + int) \<times> Reader" where
  "Reader_uint_t r bits be =
     (if bits mod 8 \<noteq> 0 then (Inl Error_bits_multiple_of_8, r)
      else
        let bytes = bits div 8 in
        if Reader_unreadBytes r < bytes then (Inl Error_not_enough_bytes, r)
        else
          let start = Reader_offset r;
              r' = r\<lparr>m_current_offset := m_current_offset r + bytes\<rparr>
          in if be then (readUIntBE (m_buffer r') bytes start, r')
             else (readUIntLE (m_buffer r') bytes start, r'))"

definition Reader_uint8_t :: "Reader \<Rightarrow> (error + int) \<times> Reader" where
  "Reader_uint8_t r = Reader_uint_t r 8 False"

definition Reader_uint64_t :: "Reader \<Rightarrow> bool \<Rightarrow> (error + int) \<times> Reader" where
  "Reader_uint64_t r be = Reader_uint_t r 64 be"

text \<open>\<open>varint\<close>, plain branch: the \<open>do ... while (true)\<close> loop that looks for the first
  byte below 128, starting at the cursor. It ends with the cursor behind that byte, or with
  the \<open>RangeError\<close> of \<open>readUInt8\<close> and the cursor where the read failed.\<close>

function varint_scan :: "Reader \<Rightarrow> (error + unit) \<times> Reader" where
  "varint_scan r =
     (case Buffer_readUInt8 (m_buffer r) (m_current_offset r) of
        Inl e \<Rightarrow> (Inl e, r)
      | Inr b \<Rightarrow>
          if b < 128 then (Inr (), r\<lparr>m_current_offset := m_current_offset r + 1\<rparr>)
          else varint_scan (r\<lparr>m_current_offset := m_current_offset r + 1\<rparr>))"
  by pat_completeness auto
termination
  by (relation "measure (\<lambda>r. nat (int (length (m_buffer r)) - m_current_offset r))")
     (auto simp: Buffer_readUInt8_def split: if_splits)

declare varint_scan.simps [simp del]

text \<open>\<open>varint\<close>, Levin branch: the \<open>for\<close> loop over the \<open>bytesLeft\<close> bytes that follow
  the first one.\<close>

function levin_read_loop :: "Reader \<Rightarrow> int \<Rightarrow> nat \<Rightarrow> nat \<Rightarrow> (error + int) \<times> Reader" where
  "levin_read_loop r v i bytesLeft =
     (if i \<le> bytesLeft then
        (case Reader_uint8_t r of
           (Inl e, r') \<Rightarrow> (Inl e, r')
         | (Inr b, r') \<Rightarrow>
             let nv = push_bit (i * 8) b
             in levin_read_loop r' (v OR nv) (i + 1) bytesLeft)
      else (Inr (drop_bit 2 v), r))"
  by pat_completeness auto
termination
  by (relation "measure (\<lambda>(r, v, i, bytesLeft). Suc bytesLeft - i)") auto

declare levin_read_loop.simps [simp del]

definition Reader_varint :: "Reader \<Rightarrow> bool \<Rightarrow> bool \<Rightarrow> (error + int) \<times> Reader" where
  "Reader_varint r peek levin =
     (let start = m_current_offset r in
      if \<not> levin then
        (case varint_scan r of
           (Inl e, r') \<Rightarrow> (Inl e, r')
         | (Inr u, r') \<Rightarrow>
             let tmp = Buffer_slice (m_buffer r') start (Reader_offset r');
                 r'' = (if peek then r'\<lparr>m_current_offset := start\<rparr> else r')
             in (Varint_decode tmp, r''))
      else
        (case Reader_uint8_t r of
           (Inl e, r') \<Rightarrow> (Inl e, r')
         | (Inr v, r') \<Rightarrow>
             let sizeMask = v AND 0x03;
                 bytesLeft = (if sizeMask = 0 then 0 else if sizeMask = 1 then 1
                              else if sizeMask = 2 then 3 else 7)
             in levin_read_loop r' v 1 bytesLeft))"

section \<open>Specification functions\<close>

text \<open>Reference notions used to state and prove the properties below: the \<open>k\<close>-digit
  hexadecimal numeral of a number, its \<open>n\<close>-byte big-endian representation, and the
  number a byte sequence denotes when read most significant byte first.\<close>

fun hexn :: "nat \<Rightarrow> nat \<Rightarrow> string" where
  "hexn 0 v = []"
| "hexn (Suc k) v = hexn k (v div 16) @ [hexdigit (v mod 16)]"

fun be_bytes :: "nat \<Rightarrow> nat \<Rightarrow> buffer" where
  "be_bytes 0 v = []"
| "be_bytes (Suc n) v = be_bytes n (v div 256) @ [of_nat (v mod 256)]"

definition be_value :: "buffer \<Rightarrow> int" where
  "be_value bs = foldl (\<lambda>acc b. acc * 256 + uint b) 0 bs"

text \<open>The round trip of the test suite: write \<open>x\<close> into a writer, build a reader from
  the writer's blob, move the cursor to where the value starts and read it back. The
  result is the value read and the number of bytes left unread after it.\<close>

definition uint_t_roundtrip :: "Writer \<Rightarrow> int \<Rightarrow> int \<Rightarrow> bool \<Rightarrow> error + int \<times> int" where
  "uint_t_roundtrip w x bits be =
     (case Writer_uint_t w x (Some bits) be of
        (Inl e, w') \<Rightarrow> Inl e
      | (Inr ok, w') \<Rightarrow>
          (case Reader_new (BString (Writer_blob w')) of
             Inl e \<Rightarrow> Inl e
           | Inr r \<Rightarrow>
               (case Reader_uint_t (Reader_reset r (Writer_length w)) bits be of
                  (Inl e, r') \<Rightarrow> Inl e
                | (Inr v, r') \<Rightarrow> Inr (v, Reader_unreadBytes r'))))"

text \<open>The LEB128 encoding of a number: seven bits per byte, least significant group
  first, the top bit set on every byte but the last.\<close>

function leb :: "int \<Rightarrow> buffer" where
  "leb y = (if y < 128 then [word_of_int y] else word_of_int (128 + y mod 128) # leb (y div 128))"
  by pat_completeness auto
termination
  by (relation "measure nat") auto

declare leb.simps [simp del]

text \<open>The value the Levin reader accumulates from the bytes after the first one, and the
  round trip of the test suite for a Levin varint.\<close>

fun levin_join :: "int \<Rightarrow> nat \<Rightarrow> buffer \<Rightarrow> int" where
  "levin_join v i [] = v"
| "levin_join v i (b # bs) = levin_join (v OR push_bit (i * 8) (uint b)) (i + 1) bs"

definition levin_roundtrip :: "Writer \<Rightarrow> int \<Rightarrow> error + int \<times> int" where
  "levin_roundtrip w x =
     (case Writer_varint w x True of
        (Inl e, w') \<Rightarrow> Inl e
      | (Inr ok, w') \<Rightarrow>
          (case Reader_new (BString (Writer_blob w')) of
             Inl e \<Rightarrow> Inl e
           | Inr r \<Rightarrow>
               (case Reader_varint (Reader_reset r (Writer_length w)) False True of
                  (Inl e, r') \<Rightarrow> Inl e
                | (Inr v, r') \<Rightarrow> Inr (v, Reader_unreadBytes r'))))"

text \<open>The supported bit widths of auto-sizing, and what it means for a width to fit a
  value: the largest unsigned value of that width is at least the value.\<close>

definition supported_widths :: "int list" where
  "supported_widths = [8, 16, 32, 64, 128, 256, 512, 1024, 2048, 4096, 8192]"

definition fits :: "int \<Rightarrow> int \<Rightarrow> bool" where
  "fits v bits = (v \<le> 2 ^ nat bits - 1)"

text \<open>The bytes a chunk accepted by \<open>Reader.append\<close> stands for; \<open>None\<close> for the
  arguments it rejects.\<close>

fun chunk_bytes :: "blob \<Rightarrow> buffer option" where
  "chunk_bytes (BReader x) = Some (m_buffer x)"
| "chunk_bytes (BWriter x) = Some (w_buffer x)"
| "chunk_bytes (BBuffer buf) = Some buf"
| "chunk_bytes (BUint8Array buf) = Some buf"
| "chunk_bytes (BString s) = (if length s mod 2 = 0 then Some (Buffer_from_hex s) else None)"
| "chunk_bytes BOther = None"

section \<open>Hexadecimal conversions\<close>

lemma hexdigit_table:
  "list_all (\<lambda>d. hexval (hexdigit d) = Some d \<and> hexdigit d \<noteq> CHR ''-'') [0..<16]"
  by code_simp

lemma hexval_hexdigit: "d < 16 \<Longrightarrow> hexval (hexdigit d) = Some d"
  using hexdigit_table by (simp add: list_all_iff)

lemma hexdigit_not_minus: "hexdigit d \<noteq> CHR ''-''"
proof -
  have "hexdigit (d mod 16) \<noteq> CHR ''-''"
    using hexdigit_table by (simp add: list_all_iff)
  then show ?thesis by (simp add: hexdigit_def)
qed

lemma from_hex_byte: "Buffer_from_hex (hex_of_byte b @ cs) = b # Buffer_from_hex cs"
proof -
  have lt: "unat b div 16 < 16" using unsigned_less [of b, where ?'a = nat] by simp
  have "(of_nat (16 * (unat b div 16) + unat b mod 16) :: byte) = b"
    by (simp add: mult_div_mod_eq)
  then show ?thesis by (simp add: hex_of_byte_def hexval_hexdigit lt)
qed

lemma from_hex_toString: "Buffer_from_hex (Buffer_toString_hex bs @ cs) = bs @ Buffer_from_hex cs"
  by (induction bs) (simp_all add: Buffer_toString_hex_def from_hex_byte)

lemma radix16_step: "(u::int) = 16 * q + m \<Longrightarrow> (acc * 16 + q) * 16 + m = acc * 256 + u"
  by simp

lemma parse_digits_byte:
  "parse_digits16 acc (hex_of_byte b @ cs) = parse_digits16 (acc * 256 + uint b) cs"
proof -
  have lt: "unat b div 16 < 16" using unsigned_less [of b, where ?'a = nat] by simp
  have eq: "(acc * 16 + int (unat b div 16)) * 16 + int (unat b mod 16) = acc * 256 + uint b"
  proof (rule radix16_step)
    have "uint b = 16 * (uint b div 16) + uint b mod 16" by simp
    moreover have "int (unat b div 16) = uint b div 16" by (simp add: zdiv_int)
    moreover have "int (unat b mod 16) = uint b mod 16" by (simp add: zmod_int)
    ultimately show "uint b = 16 * int (unat b div 16) + int (unat b mod 16)" by (simp only:)
  qed
  have "parse_digits16 acc (hex_of_byte b @ cs) =
        parse_digits16 ((acc * 16 + int (unat b div 16)) * 16 + int (unat b mod 16)) cs"
    by (simp add: hex_of_byte_def hexval_hexdigit lt)
  then show ?thesis by (simp only: eq)
qed

lemma parse_digits_toString:
  "parse_digits16 acc (Buffer_toString_hex bs) = Inr (foldl (\<lambda>acc b. acc * 256 + uint b) acc bs)"
  by (induction bs arbitrary: acc) (simp_all add: Buffer_toString_hex_def parse_digits_byte)

lemma parse16_toString: "BigInteger_parse16 (Buffer_toString_hex bs) = Inr (be_value bs)"
proof (cases bs)
  case Nil
  then show ?thesis by (simp add: BigInteger_parse16_def Buffer_toString_hex_def be_value_def)
next
  case (Cons b bs')
  then have "\<exists>cs. Buffer_toString_hex bs = hexdigit (unat b div 16) # cs"
    by (simp add: Buffer_toString_hex_def hex_of_byte_def)
  then obtain cs where cs: "Buffer_toString_hex bs = hexdigit (unat b div 16) # cs" by blast
  show ?thesis
    unfolding BigInteger_parse16_def be_value_def
    using parse_digits_toString [of 0 bs] cs by (simp add: hexdigit_not_minus)
qed

lemma length_hexn [simp]: "length (hexn k v) = k"
  by (induction k arbitrary: v) simp_all

lemma hexn_zero: "hexn k 0 = replicate k (CHR ''0'')"
  by (induction k) (simp_all add: hexdigit_def replicate_append_same)

lemma length_hex_digits: "v < 16 ^ k \<Longrightarrow> length (hex_digits v) \<le> k"
proof (induction k arbitrary: v)
  case 0
  then show ?case by (simp add: hex_digits.simps)
next
  case (Suc k)
  show ?case
  proof (cases "v = 0")
    case True
    then show ?thesis by (simp add: hex_digits.simps)
  next
    case False
    from Suc.prems have "v div 16 < 16 ^ k" by (simp add: less_mult_imp_div_less mult.commute)
    then have "length (hex_digits (v div 16)) \<le> k" by (rule Suc.IH)
    with False show ?thesis by (subst hex_digits.simps) simp
  qed
qed

lemma pad_hex_digits:
  "v < 16 ^ k \<Longrightarrow> replicate (k - length (hex_digits v)) (CHR ''0'') @ hex_digits v = hexn k v"
proof (induction k arbitrary: v)
  case 0
  then show ?case by (simp add: hex_digits.simps)
next
  case (Suc k)
  show ?case
  proof (cases "v = 0")
    case True
    then show ?thesis
      by (simp add: hex_digits.simps [of 0] hexn_zero hexdigit_def replicate_append_same)
  next
    case False
    from Suc.prems have lt: "v div 16 < 16 ^ k" by (simp add: less_mult_imp_div_less mult.commute)
    have len: "length (hex_digits (v div 16)) \<le> k" using lt by (rule length_hex_digits)
    have "hex_digits v = hex_digits (v div 16) @ [hexdigit (v mod 16)]"
      using False by (subst hex_digits.simps) simp
    then show ?thesis using Suc.IH [OF lt] len by (simp add: Suc_diff_le)
  qed
qed

lemma padStart_toString16:
  assumes "0 \<le> v" "v < 16 ^ k" "0 < k"
  shows "padStart (int k) (CHR ''0'') (BigInteger_toString16 v) = hexn k (nat v)"
proof (cases "v = 0")
  case True
  obtain j where j: "k = Suc j" using assms(3) by (cases k) auto
  show ?thesis using True
    by (simp add: padStart_def BigInteger_toString16_def hexn_zero j replicate_append_same)
next
  case False
  have "nat v < 16 ^ k" using assms by (simp add: nat_less_iff)
  then show ?thesis using False assms(1)
    by (simp add: padStart_def BigInteger_toString16_def pad_hex_digits)
qed

lemma from_hex_hexn:
  "Buffer_from_hex (hexn (2 * n) v @ cs) = be_bytes n v @ Buffer_from_hex cs"
proof (induction n arbitrary: v cs)
  case 0
  then show ?case by simp
next
  case (Suc n)
  have d: "v div 16 div 16 = v div 256" by (simp add: div_mult2_eq)
  have m: "16 * (v div 16 mod 16) + v mod 16 = v mod 256"
    using mod_mult2_eq [of v 16 16] by simp
  have "hexn (2 * Suc n) v @ cs =
        hexn (2 * n) (v div 256) @ (hexdigit (v div 16 mod 16) # hexdigit (v mod 16) # cs)"
    by (simp add: d)
  then show ?case
    by (simp only: Suc.IH) (simp add: hexval_hexdigit m)
qed

lemma length_be_bytes [simp]: "length (be_bytes n v) = n"
  by (induction n arbitrary: v) simp_all

lemma be_value_be_bytes: "be_value (be_bytes n v) = int (v mod 256 ^ n)"
proof (induction n arbitrary: v)
  case 0
  then show ?case by (simp add: be_value_def)
next
  case (Suc n)
  have u: "uint (of_nat (v mod 256) :: byte) = int (v mod 256)"
    by (simp add: unsigned_of_nat take_bit_eq_mod)
  have "be_value (be_bytes (Suc n) v) = be_value (be_bytes n (v div 256)) * 256 + int (v mod 256)"
    by (simp add: be_value_def u)
  also have "\<dots> = int ((v div 256) mod 256 ^ n * 256 + v mod 256)"
    by (simp add: Suc.IH)
  also have "(v div 256) mod 256 ^ n * 256 + v mod 256 = v mod 256 ^ Suc n"
    using mod_mult2_eq [of v 256 "256 ^ n"] by simp
  finally show ?case .
qed

lemma writeUIntBE_be_bytes:
  assumes "0 \<le> v" "v < 256 ^ n" "0 < n"
  shows "writeUIntBE v (int n) = be_bytes n (nat v)"
proof -
  have "v < 16 ^ (2 * n)" using assms(2) by (simp add: power_mult)
  then have "padStart (int (2 * n)) (CHR ''0'') (BigInteger_toString16 v) = hexn (2 * n) (nat v)"
    using assms by (intro padStart_toString16) simp_all
  then have "padStart (int n * 2) (CHR ''0'') (BigInteger_toString16 v) = hexn (2 * n) (nat v)"
    by (simp add: mult.commute)
  then show ?thesis
    using from_hex_hexn [of n "nat v" "[]"] by (simp add: writeUIntBE_def)
qed

lemma reverse_into_rev:
  "length bs \<le> length tmp \<Longrightarrow>
   reverse_into tmp (int (length bs) - 1) bs = rev bs @ drop (length bs) tmp"
proof (induction bs arbitrary: tmp)
  case Nil
  then show ?case by simp
next
  case (Cons b bs)
  let ?tmp' = "tmp[length bs := b]"
  have len: "length bs < length tmp" using Cons.prems by simp
  have "reverse_into tmp (int (length (b # bs)) - 1) (b # bs)
        = reverse_into ?tmp' (int (length bs) - 1) bs"
    using len by simp
  also have "\<dots> = rev bs @ drop (length bs) ?tmp'"
    using len by (intro Cons.IH) simp
  also have "drop (length bs) ?tmp' = b # drop (Suc (length bs)) tmp"
    using len by (simp add: Cons_nth_drop_Suc [symmetric] upd_conv_take_nth_drop)
  finally show ?case by simp
qed

lemma reverse_into_alloc:
  "reverse_into (replicate (length bs) 0) (int (length bs) - 1) bs = rev bs"
  using reverse_into_rev [of bs "replicate (length bs) 0"] by simp

lemma writeUIntLE_be_bytes:
  assumes "0 \<le> v" "v < 256 ^ n" "0 < n"
  shows "writeUIntLE v (int n) = Inr (rev (be_bytes n (nat v)))"
proof -
  have be: "writeUIntBE v (int n) = be_bytes n (nat v)" using assms by (rule writeUIntBE_be_bytes)
  have "reverse_into (replicate n 0) (int n - 1) (be_bytes n (nat v)) = rev (be_bytes n (nat v))"
    using reverse_into_alloc [of "be_bytes n (nat v)"] by simp
  then show ?thesis
    using be by (simp add: writeUIntLE_def writeUIntBE_def Buffer_alloc_def Let_def)
qed

lemma Buffer_slice_middle:
  "Buffer_slice (pre @ bs @ post) (int (length pre)) (int (length pre) + int (length bs)) = bs"
  by (simp add: Buffer_slice_def clamp_index_def Let_def nat_add_distrib min_def)

lemma readUIntBE_value:
  "readUIntBE (pre @ bs @ post) (int (length bs)) (int (length pre)) = Inr (be_value bs)"
  using Buffer_slice_middle [of pre bs post]
  by (simp add: readUIntBE_def parse16_toString)

lemma readUIntLE_value:
  "readUIntLE (pre @ bs @ post) (int (length bs)) (int (length pre)) = Inr (be_value (rev bs))"
  using Buffer_slice_middle [of pre bs post] reverse_into_alloc [of bs]
  by (simp add: readUIntLE_def parse16_toString Buffer_alloc_def)

section \<open>Fixed-width unsigned integers\<close>

lemma Writer_uint_t_bytes:
  assumes "0 \<le> x" "x < 256 ^ n" "0 < n"
  shows "Writer_uint_t w x (Some (8 * int n)) be =
           (Inr True, w\<lparr>w_buffer := w_buffer w @
              (if be then be_bytes n (nat x) else rev (be_bytes n (nat x)))\<rparr>)"
  using assms
  by (simp add: Writer_uint_t_def writeUIntBE_be_bytes writeUIntLE_be_bytes Writer_write_def)

lemma Reader_uint_t_value:
  assumes "length bs = n"
  shows "Reader_uint_t \<lparr>m_buffer = pre @ bs @ post, m_current_offset = int (length pre)\<rparr>
            (8 * int n) be =
           (Inr (be_value (if be then bs else rev bs)),
            \<lparr>m_buffer = pre @ bs @ post, m_current_offset = int (length pre) + int n\<rparr>)"
  using readUIntBE_value [of pre bs post] readUIntLE_value [of pre bs post] assms
  by (simp add: Reader_uint_t_def Reader_unreadBytes_def Reader_length_def Reader_offset_def)

lemma Reader_new_blob:
  "Reader_new (BString (Writer_blob w)) = Inr \<lparr>m_buffer = w_buffer w, m_current_offset = 0\<rparr>"
  using from_hex_toString [of "w_buffer w" "[]"] by (simp add: Reader_new_def Writer_blob_def)

text \<open>
  Claim C1. For every bit width \<open>b\<close> that is a positive multiple of 8 (in particular
  every supported width up to 8192), both endianness flags and every integer
  \<open>0 \<le> x \<le> 2^b - 1\<close>: writing \<open>x\<close> with \<open>Writer.uint_t\<close> and reading an unsigned
  integer of the same width and endianness back from the bytes written returns exactly
  \<open>x\<close> and consumes exactly those bytes.
\<close>

theorem uint_t_write_read_roundtrip:
  assumes "0 < b" "b mod 8 = 0" "0 \<le> x" "x < 2 ^ nat b"
  shows "uint_t_roundtrip w x b be = Inr (x, 0)"
proof -
  define n where "n = nat (b div 8)"
  have b: "b = 8 * int n" using assms(1,2) by (auto simp: n_def)
  have n: "0 < n" using assms(1) b by simp
  have "(2::int) ^ nat b = 256 ^ n" 
  proof -
    have "nat b = 8 * n" using b by simp
    then have "(2::int) ^ nat b = (2 ^ 8) ^ n" by (simp add: power_mult)
    then show ?thesis by simp
  qed
  then have x: "x < 256 ^ n" using assms(4) by simp
  define bs where "bs = (if be then be_bytes n (nat x) else rev (be_bytes n (nat x)))"
  define w' where "w' = w\<lparr>w_buffer := w_buffer w @ bs\<rparr>"
  have len: "length bs = n" by (simp add: bs_def)
  have wr: "Writer_uint_t w x (Some b) be = (Inr True, w')"
    unfolding b w'_def bs_def using assms(3) x n by (rule Writer_uint_t_bytes)
  define r where "r = \<lparr>m_buffer = w_buffer w', m_current_offset = 0\<rparr>"
  have rn: "Reader_new (BString (Writer_blob w')) = Inr r"
    unfolding r_def by (rule Reader_new_blob)
  have nx: "int (nat x mod 256 ^ n) = x"
  proof -
    have "nat x < 256 ^ n" using x assms(3) by (simp add: nat_less_iff)
    then show ?thesis using assms(3) by simp
  qed
  have val: "be_value (if be then bs else rev bs) = x"
    using be_value_be_bytes [of n "nat x"] nx by (simp add: bs_def)
  have "Reader_uint_t \<lparr>m_buffer = w_buffer w @ bs @ [], m_current_offset = int (length (w_buffer w))\<rparr>
            (8 * int n) be =
           (Inr (be_value (if be then bs else rev bs)),
            \<lparr>m_buffer = w_buffer w @ bs @ [], m_current_offset = int (length (w_buffer w)) + int n\<rparr>)"
    using len by (rule Reader_uint_t_value)
  then have "Reader_uint_t (Reader_reset r (Writer_length w)) b be
                = (Inr x, Reader_reset r (Writer_length w'))"
    using val len by (simp add: Reader_reset_def r_def w'_def Writer_length_def b)
  moreover have "Reader_unreadBytes (Reader_reset r (Writer_length w')) = 0"
    by (simp add: Reader_unreadBytes_def Reader_reset_def r_def Writer_length_def
        Reader_length_def Reader_offset_def)
  ultimately show ?thesis using wr rn by (simp add: uint_t_roundtrip_def)
qed

theorem uint_t_write_read_roundtrip_witness:
  "uint_t_roundtrip Writer_new 0x1234 16 False = Inr (0x1234, 0)"
  using uint_t_write_read_roundtrip [of 16 "0x1234" Writer_new False]
  by simp

section \<open>Varint codec\<close>

lemma set_top_bit_int: "((x::int) AND mask (Suc n)) OR push_bit n 1 = take_bit n x + push_bit n 1"
proof -
  have "(x AND mask (Suc n)) OR push_bit n 1 = take_bit n x OR push_bit n 1"
    by (rule bit_eqI) (auto simp: bit_simps less_Suc_eq)
  also have "take_bit n x OR push_bit n 1 = take_bit n x + push_bit n 1"
    by (rule disjunctive_add [symmetric]) (auto simp: bit_simps)
  finally show ?thesis .
qed

lemma cont_byte_int: "((x::int) AND 0xFF) OR 0x80 = 128 + x mod 128"
proof -
  have m8: "(0xFF::int) = mask (Suc 7)" by (simp add: mask_eq_exp_minus_1)
  show ?thesis using set_top_bit_int [of x 7] unfolding m8 [symmetric]
    by (simp add: take_bit_eq_mod)
qed

lemma and_not_127_eq: "(x::int) AND NOT 0x7F = 128 * (x div 128)"
proof -
  have m7: "(0x7F::int) = mask 7" by (simp add: mask_eq_exp_minus_1)
  have "x AND NOT (mask n) = push_bit n (drop_bit n x)" for n
    by (rule bit_eqI) (auto simp: bit_simps)
  from this [of 7] have "x AND NOT (mask 7) = push_bit 7 (drop_bit 7 x)" .
  then show ?thesis by (simp add: m7 push_bit_eq_mult drop_bit_eq_div)
qed

lemma and_not_127: "0 \<le> (x::int) \<Longrightarrow> (x AND NOT 0x7F > 0) = (128 \<le> x)"
  unfolding and_not_127_eq by auto

lemma encode_loop2_leb:
  "0 \<le> num \<Longrightarrow>
   (case encode_loop2 num out of (n2, o2) \<Rightarrow> map word_of_int (o2 @ [n2 OR 0]))
     = map word_of_int out @ leb num"
proof (induction num out rule: encode_loop2.induct)
  case (1 num out)
  show ?case
  proof (cases "128 \<le> num")
    case True
    then have c: "num AND NOT 0x7F > 0" using and_not_127 [OF "1.prems"] by blast
    have nn: "0 \<le> drop_bit 7 num" using "1.prems" by simp
    have "(case encode_loop2 num out of (n2, o2) \<Rightarrow> map word_of_int (o2 @ [n2 OR 0]))
        = (case encode_loop2 (drop_bit 7 num) (out @ [(num AND 0xFF) OR 0x80]) of
             (n2, o2) \<Rightarrow> map word_of_int (o2 @ [n2 OR 0]))"
      using c by (subst encode_loop2.simps) simp
    also have "\<dots> = map word_of_int (out @ [(num AND 0xFF) OR 0x80]) @ leb (drop_bit 7 num)"
      using c nn by (rule "1.IH")
    also have "\<dots> = map word_of_int out @ leb num"
      using True by (subst (2) leb.simps) (simp add: cont_byte_int drop_bit_eq_div)
    finally show ?thesis .
  next
    case False
    then have c: "\<not> num AND NOT 0x7F > 0" using and_not_127 [OF "1.prems"] by blast
    show ?thesis using c False
      by (subst encode_loop2.simps, subst leb.simps) simp
  qed
qed

lemma encode_loop1_leb:
  "0 \<le> num \<Longrightarrow>
   (case encode_loop1 num out of (n1, o1) \<Rightarrow>
      (case encode_loop2 n1 o1 of (n2, o2) \<Rightarrow> map word_of_int (o2 @ [n2 OR 0])))
     = map word_of_int out @ leb num"
proof (induction num out rule: encode_loop1.induct)
  case (1 num out)
  show ?case
  proof (cases "num \<ge> 2 ^ 31")
    case True
    have nn: "0 \<le> num div 128" using "1.prems" by simp
    have big: "\<not> num < 128" using True by simp
    have "(case encode_loop1 num out of (n1, o1) \<Rightarrow>
            (case encode_loop2 n1 o1 of (n2, o2) \<Rightarrow> map word_of_int (o2 @ [n2 OR 0])))
        = (case encode_loop1 (num div 128) (out @ [(num AND 0xFF) OR 0x80]) of (n1, o1) \<Rightarrow>
            (case encode_loop2 n1 o1 of (n2, o2) \<Rightarrow> map word_of_int (o2 @ [n2 OR 0])))"
      using True by (subst encode_loop1.simps) simp
    also have "\<dots> = map word_of_int (out @ [(num AND 0xFF) OR 0x80]) @ leb (num div 128)"
      using True nn by (rule "1.IH")
    also have "\<dots> = map word_of_int out @ leb num"
      using big by (subst (2) leb.simps) (simp add: cont_byte_int)
    finally show ?thesis .
  next
    case False
    then have "encode_loop1 num out = (num, out)" by (subst encode_loop1.simps) simp
    then show ?thesis using encode_loop2_leb [OF "1.prems", of out] by simp
  qed
qed

lemma Varint_encode_leb: "0 \<le> x \<Longrightarrow> Varint_encode x = leb x"
  using encode_loop1_leb [of x "[]"] by (simp add: Varint_encode_def split: prod.splits)

lemma uint_cont_byte: "uint (word_of_int (128 + y mod 128) :: byte) = 128 + y mod 128"
proof -
  have "0 \<le> y mod 128" "y mod 128 < 128" by simp_all
  then have e: "(128 + y mod 128) mod 256 = 128 + y mod 128" by simp
  have "uint (word_of_int (128 + y mod 128) :: byte) = (128 + y mod 128) mod 2 ^ LENGTH(8)"
    by (rule uint_word_of_int)
  also have "\<dots> = 128 + y mod 128" using e by simp
  finally show ?thesis .
qed

lemma cont_byte_ge: "(word_of_int (128 + y mod 128) :: byte) \<ge> 0x80"
  unfolding word_le_def uint_cont_byte by simp

lemma byte_and_7f: "uint ((b::byte) AND 0x7f) = uint b mod 128"
proof -
  have "uint b AND mask 7 = uint b mod 2 ^ 7"
    by (simp only: take_bit_eq_mask [symmetric] take_bit_eq_mod)
  moreover have "(mask 7 :: int) = 127" by (simp add: mask_eq_exp_minus_1)
  ultimately have "uint b AND 127 = uint b mod 128" by simp
  then show ?thesis by (simp add: uint_and)
qed

lemma cont_byte_payload: "uint ((word_of_int (128 + y mod 128) :: byte) AND 0x7f) = y mod 128"
  by (simp only: byte_and_7f uint_cont_byte) simp

lemma last_byte:
  assumes "0 \<le> y" "y < 128"
  shows "uint ((word_of_int y :: byte) AND 0x7f) = y" "\<not> (word_of_int y :: byte) \<ge> 0x80"
proof -
  have u: "uint (word_of_int y :: byte) = y" using assms by (simp add: uint_word_of_int)
  show "uint ((word_of_int y :: byte) AND 0x7f) = y" using assms by (simp only: byte_and_7f u) simp
  show "\<not> (word_of_int y :: byte) \<ge> 0x80" using assms unfolding word_le_def u by simp
qed

lemma shift_small:
  assumes "s \<le> 21"
  shows "sint (push_bit s (ucast ((b::byte) AND 0x7f) :: 32 word)) = uint (b AND 0x7f) * 2 ^ s"
proof -
  define m where "m = uint (b AND 0x7f)"
  define w where "w = (ucast (b AND 0x7f) :: 32 word)"
  have m: "0 \<le> m" "m < 128" by (simp_all add: m_def byte_and_7f)
  have um: "uint w = m"
    using m by (simp add: unsigned_ucast_eq m_def w_def take_bit_eq_mod)
  have "(2::int) ^ s \<le> 2 ^ 21" using assms by (intro power_increasing) simp_all
  then have "m * 2 ^ s \<le> 127 * 2 ^ 21" using m by (intro mult_mono) simp_all
  then have lt: "m * 2 ^ s < 2 ^ 31" by simp
  have nn: "0 \<le> m * 2 ^ s" using m by simp
  have "uint (push_bit s w) = take_bit LENGTH(32) (push_bit s (uint w))"
    by (rule unsigned_push_bit_eq)
  also have "\<dots> = (m * 2 ^ s) mod 2 ^ 32" by (simp add: um push_bit_eq_mult take_bit_eq_mod)
  also have "\<dots> = m * 2 ^ s" using lt nn by simp
  finally have u: "uint (push_bit s w) = m * 2 ^ s" .
  have "sint (push_bit s w) = signed_take_bit (LENGTH(32) - Suc 0) (uint (push_bit s w))"
    by (rule sint_uint)
  also have "\<dots> = signed_take_bit 31 (m * 2 ^ s)" by (simp only: u) simp
  also have "\<dots> = m * 2 ^ s" using lt nn by (intro signed_take_bit_int_eq_self) simp_all
  finally show ?thesis by (simp add: m_def w_def)
qed

lemma decode_loop_at:
  "decode_loop (pre @ b # rest) (length pre) s acc =
     (case (if s < 28
            then Some (sint (push_bit s (ucast (b AND 0x7f) :: 32 word)))
            else js_times (uint (b AND 0x7f)) (Math_pow2 s)) of
        None \<Rightarrow> Inl RangeError_not_an_integer
      | Some v \<Rightarrow>
          if b \<ge> 0x80 then decode_loop (pre @ b # rest) (length pre + 1) (s + 7) (acc + v)
          else Inr (acc + v))"
  by (subst decode_loop.simps) (simp add: Let_def)

lemma decode_value_ok:
  assumes "uint ((b::byte) AND 0x7f) = m" "m * 2 ^ (7 * k) < 2 ^ 1024" "7 * k < 1024"
  shows "(if 7 * k < 28
          then Some (sint (push_bit (7 * k) (ucast (b AND 0x7f) :: 32 word)))
          else js_times (uint (b AND 0x7f)) (Math_pow2 (7 * k))) = Some (m * 2 ^ (7 * k))"
proof (cases "7 * k < 28")
  case True
  then have "7 * k \<le> 21" by presburger
  then show ?thesis using True assms(1) by (simp only: shift_small) simp
next
  case False
  then show ?thesis using assms by (simp add: js_times_def Math_pow2_def)
qed

lemma shift_bound:
  assumes "1 \<le> (y::int)" "y * 2 ^ s < 2 ^ 1024"
  shows "s < 1024"
proof -
  have "(2::int) ^ s \<le> y * 2 ^ s" using assms(1) by (simp add: mult_le_cancel_right1)
  then have "(2::int) ^ s < 2 ^ 1024" using assms(2) by linarith
  then show ?thesis by (simp only: power_strict_increasing_iff) 
qed

lemma decode_leb_ok:
  assumes "0 \<le> y" "1 \<le> y \<or> k = 0" "y * 2 ^ (7 * k) < 2 ^ 1024"
  shows "decode_loop (pre @ leb y) (length pre) (7 * k) acc = Inr (acc + y * 2 ^ (7 * k))"
  using assms
proof (induction y arbitrary: pre k acc rule: leb.induct)
  case (1 y)
  have sb: "7 * k < 1024"
    using "1.prems"(2,3) shift_bound [of y "7 * k"] by auto
  show ?case
  proof (cases "y < 128")
    case True
    define b where "b = (word_of_int y :: byte)"
    have lb: "uint (b AND 0x7f) = y" "\<not> b \<ge> 0x80"
      unfolding b_def using "1.prems"(1) True by (rule last_byte)+
    have v: "(if 7 * k < 28
          then Some (sint (push_bit (7 * k) (ucast (b AND 0x7f) :: 32 word)))
          else js_times (uint (b AND 0x7f)) (Math_pow2 (7 * k))) = Some (y * 2 ^ (7 * k))"
      using lb(1) "1.prems"(3) sb by (rule decode_value_ok)
    have "leb y = [b]" using True by (subst leb.simps) (simp add: b_def)
    then show ?thesis
      using lb(2) by (simp only: decode_loop_at v) simp
  next
    case False
    define b where "b = (word_of_int (128 + y mod 128) :: byte)"
    define m where "m = y mod 128"
    define q where "q = y div 128"
    have y: "y = q * 128 + m" by (simp add: q_def m_def)
    have q1: "1 \<le> q" using False by (simp add: q_def pos_imp_zdiv_pos_iff)
    have m0: "0 \<le> m" by (simp add: m_def)
    have pb: "uint (b AND 0x7f) = m" unfolding b_def m_def by (rule cont_byte_payload)
    have ge: "b \<ge> 0x80" unfolding b_def by (rule cont_byte_ge)
    have split: "y * 2 ^ (7 * k) = m * 2 ^ (7 * k) + q * 2 ^ (7 * Suc k)"
      by (simp add: y algebra_simps power_add)
    have qn: "0 \<le> q * 2 ^ (7 * Suc k)" using q1 by simp
    have mn: "0 \<le> m * 2 ^ (7 * k)" using m0 by simp
    have mlt: "m * 2 ^ (7 * k) < 2 ^ 1024" using "1.prems"(3) split qn by linarith
    have qlt: "q * 2 ^ (7 * Suc k) < 2 ^ 1024" using "1.prems"(3) split mn by linarith
    have v: "(if 7 * k < 28
          then Some (sint (push_bit (7 * k) (ucast (b AND 0x7f) :: 32 word)))
          else js_times (uint (b AND 0x7f)) (Math_pow2 (7 * k))) = Some (m * 2 ^ (7 * k))"
      using pb mlt sb by (rule decode_value_ok)
    have l: "leb y = b # leb q" using False by (subst leb.simps) (simp add: b_def q_def)
    have "decode_loop ((pre @ [b]) @ leb q) (length (pre @ [b])) (7 * Suc k) (acc + m * 2 ^ (7 * k))
          = Inr (acc + m * 2 ^ (7 * k) + q * 2 ^ (7 * Suc k))"
      unfolding q_def
    proof (rule "1.IH" [OF False])
      show "0 \<le> y div 128" using "1.prems"(1) by simp
      show "1 \<le> y div 128 \<or> Suc k = 0" using q1 by (simp add: q_def)
      show "y div 128 * 2 ^ (7 * Suc k) < 2 ^ 1024" using qlt by (simp add: q_def)
    qed
    then have IH: "decode_loop (pre @ b # leb q) (length pre + 1) (7 * k + 7) (acc + m * 2 ^ (7 * k))
          = Inr (acc + y * 2 ^ (7 * k))"
      by (simp add: split add.commute add.assoc)
    show ?thesis
      unfolding l decode_loop_at v using ge IH by simp
  qed
qed

lemma decode_value_overflow:
  assumes "uint ((b::byte) AND 0x7f) = m" "1024 \<le> 7 * k \<or> (1017 < 7 * k \<and> 2 ^ 1024 \<le> m * 2 ^ (7 * k))"
  shows "(if 7 * k < 28
          then Some (sint (push_bit (7 * k) (ucast (b AND 0x7f) :: 32 word)))
          else js_times (uint (b AND 0x7f)) (Math_pow2 (7 * k))) = None"
proof -
  have s: "\<not> 7 * k < 28" using assms(2) by linarith
  have "js_times m (Math_pow2 (7 * k)) = None"
  proof (cases "1024 \<le> 7 * k")
    case True
    then show ?thesis by (simp add: js_times_def Math_pow2_def)
  next
    case False
    then have "\<not> m * 2 ^ (7 * k) < 2 ^ 1024" using assms(2) by linarith
    then show ?thesis using False by (simp only: js_times_def Math_pow2_def) simp
  qed
  then show ?thesis using s assms(1) by simp
qed

lemma decode_leb_overflow:
  assumes "0 \<le> y" "1024 \<le> 7 * k \<or> 2 ^ (1024 - 7 * k) \<le> y"
  shows "decode_loop (pre @ leb y) (length pre) (7 * k) acc = Inl RangeError_not_an_integer"
  using assms
proof (induction y arbitrary: pre k acc rule: leb.induct)
  case (1 y)
  show ?case
  proof (cases "y < 128")
    case True
    define b where "b = (word_of_int y :: byte)"
    have lb: "uint (b AND 0x7f) = y"
      unfolding b_def using "1.prems"(1) True by (rule last_byte)
    have c: "1024 \<le> 7 * k \<or> (1017 < 7 * k \<and> 2 ^ 1024 \<le> y * 2 ^ (7 * k))"
    proof (cases "1024 \<le> 7 * k")
      case True
      then show ?thesis by simp
    next
      case False
      then have p: "(2::int) ^ (1024 - 7 * k) \<le> y" using "1.prems"(2) by simp
      then have "(2::int) ^ (1024 - 7 * k) < 2 ^ 7" using True by simp
      then have "1024 - 7 * k < 7" by (simp only: power_strict_increasing_iff)
      then have k: "1017 < 7 * k" using False by simp
      have e: "(1024 - 7 * k) + 7 * k = 1024" using False by simp
      have "(2::int) ^ (1024 - 7 * k) * 2 ^ (7 * k) = 2 ^ ((1024 - 7 * k) + 7 * k)"
        by (simp only: power_add)
      then have "(2::int) ^ 1024 = 2 ^ (1024 - 7 * k) * 2 ^ (7 * k)" by (simp only: e)
      also have "\<dots> \<le> y * 2 ^ (7 * k)" using p by (intro mult_right_mono) simp_all
      finally show ?thesis using k by blast
    qed
    have v: "(if 7 * k < 28
          then Some (sint (push_bit (7 * k) (ucast (b AND 0x7f) :: 32 word)))
          else js_times (uint (b AND 0x7f)) (Math_pow2 (7 * k))) = None"
      using lb c by (rule decode_value_overflow)
    have "leb y = [b]" using True by (subst leb.simps) (simp add: b_def)
    then show ?thesis by (simp only: decode_loop_at v) simp
  next
    case False
    define b where "b = (word_of_int (128 + y mod 128) :: byte)"
    define q where "q = y div 128"
    have ge: "b \<ge> 0x80" unfolding b_def by (rule cont_byte_ge)
    have l: "leb y = b # leb q" using False by (subst leb.simps) (simp add: b_def q_def)
    have "decode_loop ((pre @ [b]) @ leb q) (length (pre @ [b])) (7 * Suc k) acc'
          = Inl RangeError_not_an_integer" for acc'
      unfolding q_def
    proof (rule "1.IH" [OF False])
      show "0 \<le> y div 128" using "1.prems"(1) by simp
      show "1024 \<le> 7 * Suc k \<or> 2 ^ (1024 - 7 * Suc k) \<le> y div 128"
      proof (cases "1024 \<le> 7 * Suc k")
        case True
        then show ?thesis by simp
      next
        case False
        then have "\<not> 1024 \<le> 7 * k" by simp
        then have p: "(2::int) ^ (1024 - 7 * k) \<le> y" using "1.prems"(2) by simp
        define d where "d = 1024 - 7 * Suc k"
        have "1024 - 7 * k = d + 7" using False by (simp add: d_def)
        then have "(2::int) ^ (1024 - 7 * k) = 2 ^ d * 2 ^ 7" by (simp only: power_add)
        then have "(2::int) ^ d * 128 \<le> y" using p by simp
        then have "(2::int) ^ d * 128 div 128 \<le> y div 128"
          by (intro zdiv_mono1) simp_all
        then have "(2::int) ^ d \<le> y div 128" by simp
        then show ?thesis unfolding d_def by (rule disjI2)
      qed
    qed
    then have IH: "decode_loop (pre @ b # leb q) (length pre + 1) (7 * k + 7) acc'
          = Inl RangeError_not_an_integer" for acc'
      by (simp add: add.commute)
    show ?thesis
      unfolding l decode_loop_at using ge IH by (simp split: option.splits)
  qed
qed

lemma Varint_decode_encode:
  assumes "0 \<le> x"
  shows "Varint_decode (Varint_encode x) =
           (if x < 2 ^ 1024 then Inr x else Inl RangeError_not_an_integer)"
proof (cases "x < 2 ^ 1024")
  case True
  then show ?thesis
    using decode_leb_ok [of x 0 "[]" 0] assms
    by (simp add: Varint_decode_def Varint_encode_leb)
next
  case False
  then show ?thesis
    using decode_leb_overflow [of x 0 "[]" 0] assms
    by (simp add: Varint_decode_def Varint_encode_leb)
qed

lemma Varint_encode_vectors:
  "Varint_encode 0 = [0x00]"
  "Varint_encode 127 = [0x7f]"
  "Varint_encode 255 = [0xff, 0x01]"
  "Varint_encode 2147483647 = [0xff, 0xff, 0xff, 0xff, 0x07]"
  "Varint_encode 18446744073709551615 =
     [0xff, 0xff, 0xff, 0xff, 0xff, 0xff, 0xff, 0xff, 0xff, 0x01]"
  by (simp_all add: Varint_encode_leb leb.simps)

text \<open>
  Claim C2 says that \<open>Varint.decode (Varint.encode x)\<close> is \<open>x\<close> for every non-negative
  integer \<open>x\<close>, without an upper bound. \<open>Varint_decode_encode\<close> above shows that the code
  does so exactly below \<open>2 ^ 1024\<close>, and \<open>Varint_encode_vectors\<close> confirms the literal
  encodings of the claim. At \<open>x = 2 ^ 1024\<close> the encoder still produces a well-formed
  varint, but the decoder computes \<open>(b & 0x7f) * Math.pow(2, shift)\<close> in double precision,
  the product is \<open>Infinity\<close>, and decoding ends in a \<open>RangeError\<close>.
\<close>

theorem Varint_decode_fails_at_2_pow_1024:
  "Varint_decode (Varint_encode (2 ^ 1024)) = Inl RangeError_not_an_integer"
  using Varint_decode_encode [of "2 ^ 1024"] by simp

section \<open>Levin varint\<close>

lemma levin_byte:
  assumes "k \<le> 24"
  shows "sint (signed_drop_bit k (t :: 32 word) AND 0xFF) = take_bit 8 (drop_bit k (uint t))"
proof -
  have m: "(0xFF :: 32 word) = mask 8" by (simp add: mask_eq_exp_minus_1)
  have "sint (signed_drop_bit k t AND mask 8) = take_bit 8 (drop_bit k (uint t))"
    using assms
    by (intro bit_eqI) (auto simp: bit_simps bit_sint_iff bit_uint_iff)
  then show ?thesis by (simp only: m)
qed

lemma join2: "take_bit 8 (T::int) OR push_bit 8 (take_bit 8 (drop_bit 8 T)) = take_bit 16 T"
  by (intro bit_eqI) (auto simp: bit_simps)

lemma join4:
  "take_bit 8 (T::int) OR push_bit 8 (take_bit 8 (drop_bit 8 T))
     OR push_bit 16 (take_bit 8 (drop_bit 16 T)) OR push_bit 24 (take_bit 8 (drop_bit 24 T))
   = take_bit 32 T"
proof -
  have hi: "take_bit 8 (drop_bit 16 T) OR push_bit 8 (take_bit 8 (drop_bit 24 T))
            = take_bit 16 (drop_bit 16 T)"
    using join2 [of "drop_bit 16 T"] by simp
  have "take_bit 16 T OR push_bit 16 (take_bit 16 (drop_bit 16 T)) = take_bit 32 T"
    by (intro bit_eqI) (auto simp: bit_simps)
  then show ?thesis
    by (simp add: join2 [symmetric] hi [symmetric] or.assoc)
qed

lemma uint_temp:
  assumes "0 \<le> x" "x < 2 ^ 30" "uint (c :: 32 word) < 4"
  shows "uint (push_bit 2 (word_of_int x :: 32 word) OR c) = 4 * x + uint c"
proof -
  have "uint (push_bit 2 (word_of_int x :: 32 word) OR c)
      = take_bit 32 (push_bit 2 (take_bit 32 x)) OR uint c"
    by (simp add: uint_or unsigned_push_bit_eq unsigned_of_int)
  also have "take_bit 32 x = x" using assms by (simp add: take_bit_int_eq_self)
  also have "take_bit 32 (push_bit 2 x) = push_bit 2 x"
    using assms by (simp add: take_bit_int_eq_self push_bit_eq_mult)
  also have "push_bit 2 x OR uint c = push_bit 2 x + uint c"
  proof (rule disjunctive_add [symmetric])
    fix n
    have "uint c = take_bit 2 (uint c)" using assms(3) by (simp add: take_bit_int_eq_self)
    then have "bit (uint c) n \<Longrightarrow> n < 2" by (metis bit_take_bit_iff)
    then show "\<not> bit (push_bit 2 x) n \<or> \<not> bit (uint c) n" by (auto simp: bit_simps)
  qed
  finally show ?thesis by (simp add: push_bit_eq_mult)
qed

lemma Writer_uint8_t_byte:
  assumes "0 \<le> v" "v < 256"
  shows "Writer_uint8_t w v = (Inr True, w\<lparr>w_buffer := w_buffer w @ [word_of_int v]\<rparr>)"
proof -
  have "nat v < 256" using assms by simp
  then have m: "nat v mod 256 = nat v" by simp
  have "(word_of_int (int (nat v)) :: byte) = word_of_nat (nat v)" by (rule of_int_of_nat_eq)
  then have "(word_of_nat (nat v mod 256) :: byte) = word_of_int v"
    using assms(1) by (simp only: m int_nat_eq if_True)
  then show ?thesis
    using Writer_uint_t_bytes [of v 1 w False] assms by (simp add: Writer_uint8_t_def)
qed

lemma Reader_uint8_t_at:
  "Reader_uint8_t \<lparr>m_buffer = pre @ b # post, m_current_offset = int (length pre)\<rparr>
     = (Inr (uint b), \<lparr>m_buffer = pre @ b # post, m_current_offset = int (length pre) + 1\<rparr>)"
  using Reader_uint_t_value [of "[b]" 1 pre post False]
  by (simp add: Reader_uint8_t_def be_value_def)

lemma levin_byte_range:
  "0 \<le> take_bit 8 (z::int)" "take_bit 8 (z::int) < 256"
  using take_bit_int_less_exp [of 8 z] by simp_all

lemma levin_write_loop_bytes:
  assumes "n \<le> 4"
  shows "levin_write_loop w t i n =
           (Inr True, w\<lparr>w_buffer := w_buffer w @
              map (\<lambda>j. word_of_int (take_bit 8 (drop_bit (j * 8) (uint t)))) [i..<n]\<rparr>)"
  using assms
proof (induction w t i n rule: levin_write_loop.induct)
  case (1 w t i n)
  show ?case
  proof (cases "i < n")
    case True
    then have k: "i * 8 \<le> 24" using "1.prems" by simp
    define b where "b = (word_of_int (take_bit 8 (drop_bit (i * 8) (uint t))) :: byte)"
    define w' where "w' = w\<lparr>w_buffer := w_buffer w @ [b]\<rparr>"
    have wr: "Writer_uint8_t w (sint (signed_drop_bit (i * 8) t AND 0xFF)) = (Inr True, w')"
      unfolding levin_byte [OF k] w'_def b_def
      by (rule Writer_uint8_t_byte) (rule levin_byte_range)+
    have "levin_write_loop w t i n = levin_write_loop w' t (i + 1) n"
      using True wr by (subst levin_write_loop.simps) simp
    also have "\<dots> = (Inr True, w'\<lparr>w_buffer := w_buffer w' @
              map (\<lambda>j. word_of_int (take_bit 8 (drop_bit (j * 8) (uint t)))) [i + 1..<n]\<rparr>)"
      using True wr "1.prems" by (intro "1.IH") simp_all
    finally show ?thesis using True by (simp add: w'_def b_def upt_conv_Cons)
  next
    case False
    then show ?thesis by (subst levin_write_loop.simps) simp
  qed
qed

lemma levin_read_loop_bytes:
  assumes "0 < i"
  shows "levin_read_loop \<lparr>m_buffer = pre @ bs @ post, m_current_offset = int (length pre)\<rparr>
       v i (i + length bs - 1) =
     (Inr (drop_bit 2 (levin_join v i bs)),
      \<lparr>m_buffer = pre @ bs @ post, m_current_offset = int (length pre) + int (length bs)\<rparr>)"
  using assms
proof (induction bs arbitrary: pre v i)
  case Nil
  then have "\<not> i \<le> i + length ([]::buffer) - 1" by simp
  then show ?case by (subst levin_read_loop.simps) (simp only: if_False levin_join.simps, simp)
next
  case (Cons b bs)
  define r' where "r' = \<lparr>m_buffer = pre @ b # bs @ post, m_current_offset = int (length pre) + 1\<rparr>"
  have rd: "Reader_uint8_t \<lparr>m_buffer = pre @ b # bs @ post, m_current_offset = int (length pre)\<rparr>
     = (Inr (uint b), r')"
    unfolding r'_def by (rule Reader_uint8_t_at)
  have c: "i \<le> i + length (b # bs) - 1" by simp
  have "levin_read_loop \<lparr>m_buffer = pre @ b # bs @ post, m_current_offset = int (length pre)\<rparr>
       v i (i + length (b # bs) - 1)
      = levin_read_loop r' (v OR push_bit (i * 8) (uint b)) (i + 1) (i + length (b # bs) - 1)"
    by (subst levin_read_loop.simps) (simp only: c if_True rd prod.case sum.case Let_def)
  also have "i + length (b # bs) - 1 = Suc i + length bs - 1" by simp
  also have "i + 1 = Suc i" by simp
  also have "r' = \<lparr>m_buffer = (pre @ [b]) @ bs @ post,
                         m_current_offset = int (length (pre @ [b]))\<rparr>"
    by (simp add: r'_def)
  also have "levin_read_loop \<lparr>m_buffer = (pre @ [b]) @ bs @ post,
                         m_current_offset = int (length (pre @ [b]))\<rparr>
          (v OR push_bit (i * 8) (uint b)) (Suc i) (Suc i + length bs - 1)
       = (Inr (drop_bit 2 (levin_join (v OR push_bit (i * 8) (uint b)) (Suc i) bs)),
            \<lparr>m_buffer = (pre @ [b]) @ bs @ post,
             m_current_offset = int (length (pre @ [b])) + int (length bs)\<rparr>)"
    by (rule Cons.IH) simp
  finally show ?case by simp
qed

lemma and_3_mod_4: "(z::int) AND 3 = z mod 4"
proof -
  have "(3::int) = mask 2" by (simp add: mask_eq_exp_minus_1)
  then have "z AND 3 = take_bit 2 z" by (simp only: take_bit_eq_mask)
  then show ?thesis by (simp add: take_bit_eq_mod)
qed

lemma uint_levin_byte: "uint (word_of_int (take_bit 8 z) :: byte) = take_bit 8 z"
  by (simp add: unsigned_of_int)

lemma upt_levin: "[0..<1] = [0::nat]" "[0..<2] = [0::nat, 1]" "[0..<4] = [0::nat, 1, 2, 3]"
  by (simp_all add: upt_rec)

lemma Writer_varint_levin_bytes:
  assumes "0 \<le> x" "x \<le> 1073741823"
  shows "Writer_varint w x True =
    (Inr True, w\<lparr>w_buffer := w_buffer w @
       (if x \<le> 63 then [word_of_int (take_bit 8 (4 * x))]
        else if x \<le> 16383 then
          [word_of_int (take_bit 8 (4 * x + 1)), word_of_int (take_bit 8 (drop_bit 8 (4 * x + 1)))]
        else
          [word_of_int (take_bit 8 (4 * x + 2)), word_of_int (take_bit 8 (drop_bit 8 (4 * x + 2))),
           word_of_int (take_bit 8 (drop_bit 16 (4 * x + 2))),
           word_of_int (take_bit 8 (drop_bit 24 (4 * x + 2)))])\<rparr>)"
proof -
  have x30: "x < 2 ^ 30" using assms(2) by simp
  have t0: "uint (push_bit 2 (word_of_int x :: 32 word) OR 0) = 4 * x + 0"
    using uint_temp [OF assms(1) x30, of 0] by simp
  have t1: "uint (push_bit 2 (word_of_int x :: 32 word) OR 1) = 4 * x + 1"
    using uint_temp [OF assms(1) x30, of 1] by simp
  have t2: "uint (push_bit 2 (word_of_int x :: 32 word) OR 2) = 4 * x + 2"
    using uint_temp [OF assms(1) x30, of 2] by simp
  show ?thesis
    using assms(2)
    by (simp only: Writer_varint_def levin_write_loop_bytes Let_def t0 t1 t2 upt_levin)
       simp
qed

lemma Reader_varint_levin_at:
  assumes "length rest = (if uint b AND 3 = 0 then 0 else if uint b AND 3 = 1 then 1
                          else if uint b AND 3 = 2 then 3 else 7)"
  shows "Reader_varint \<lparr>m_buffer = pre @ b # rest, m_current_offset = int (length pre)\<rparr> peek True
     = (Inr (drop_bit 2 (levin_join (uint b) 1 rest)),
        \<lparr>m_buffer = pre @ b # rest, m_current_offset = int (length pre) + 1 + int (length rest)\<rparr>)"
proof -
  define r' where "r' = \<lparr>m_buffer = pre @ b # rest, m_current_offset = int (length pre) + 1\<rparr>"
  have rd: "Reader_uint8_t \<lparr>m_buffer = pre @ b # rest, m_current_offset = int (length pre)\<rparr>
     = (Inr (uint b), r')"
    unfolding r'_def by (rule Reader_uint8_t_at)
  have r'': "r' = \<lparr>m_buffer = (pre @ [b]) @ rest @ [], m_current_offset = int (length (pre @ [b]))\<rparr>"
    by (simp add: r'_def)
  have "levin_read_loop r' (uint b) 1 (1 + length rest - 1)
      = (Inr (drop_bit 2 (levin_join (uint b) 1 rest)),
         \<lparr>m_buffer = (pre @ [b]) @ rest @ [],
          m_current_offset = int (length (pre @ [b])) + int (length rest)\<rparr>)"
    unfolding r'' by (rule levin_read_loop_bytes) simp
  then have lp: "levin_read_loop r' (uint b) 1 (length rest)
      = (Inr (drop_bit 2 (levin_join (uint b) 1 rest)),
        \<lparr>m_buffer = pre @ b # rest, m_current_offset = int (length pre) + 1 + int (length rest)\<rparr>)"
    by simp
  show ?thesis
    unfolding Reader_varint_def using assms lp by (simp add: rd Let_def)
qed

lemma levin_read_back:
  assumes "Writer_varint w x True = (Inr True, w\<lparr>w_buffer := w_buffer w @ b # rest\<rparr>)"
    and "length rest = (if uint b AND 3 = 0 then 0 else if uint b AND 3 = 1 then 1
                          else if uint b AND 3 = 2 then 3 else 7)"
    and "drop_bit 2 (levin_join (uint b) 1 rest) = x"
  shows "levin_roundtrip w x = Inr (x, 0)"
proof -
  define w' where "w' = w\<lparr>w_buffer := w_buffer w @ b # rest\<rparr>"
  define r where "r = \<lparr>m_buffer = w_buffer w', m_current_offset = 0\<rparr>"
  have rn: "Reader_new (BString (Writer_blob w')) = Inr r"
    unfolding r_def by (rule Reader_new_blob)
  have rs: "Reader_reset r (Writer_length w)
      = \<lparr>m_buffer = w_buffer w @ b # rest, m_current_offset = int (length (w_buffer w))\<rparr>"
    by (simp add: Reader_reset_def r_def w'_def Writer_length_def)
  have rv: "Reader_varint (Reader_reset r (Writer_length w)) False True
      = (Inr x, \<lparr>m_buffer = w_buffer w @ b # rest,
                  m_current_offset = int (length (w_buffer w)) + 1 + int (length rest)\<rparr>)"
    unfolding rs using Reader_varint_levin_at [OF assms(2), of "w_buffer w" False] assms(3)
    by simp
  have ub: "Reader_unreadBytes \<lparr>m_buffer = w_buffer w @ b # rest,
                  m_current_offset = int (length (w_buffer w)) + 1 + int (length rest)\<rparr> = 0"
    by (simp add: Reader_unreadBytes_def Reader_length_def Reader_offset_def)
  show ?thesis
    unfolding levin_roundtrip_def using assms(1) rn rv ub by (simp add: w'_def)
qed

lemma levin_roundtrip_ok:
  assumes "0 \<le> x" "x \<le> 1073741823"
  shows "levin_roundtrip w x = Inr (x, 0)"
proof -
  consider "x \<le> 63" | "63 < x" "x \<le> 16383" | "16383 < x" by linarith
  then show ?thesis
  proof cases
    case 1
    define T where "T = 4 * x"
    have T: "0 \<le> T" "T < 256" "T mod 4 = 0" "T div 4 = x" using 1 assms(1) by (simp_all add: T_def)
    have tb: "take_bit 8 T = T" using T by (simp add: take_bit_int_eq_self)
    have u: "uint (word_of_int (take_bit 8 T) :: byte) = T"
      using uint_levin_byte [of T] by (simp only: tb)
    show ?thesis
    proof (rule levin_read_back)
      show "Writer_varint w x True
          = (Inr True, w\<lparr>w_buffer := w_buffer w @ word_of_int (take_bit 8 T) # []\<rparr>)"
        using Writer_varint_levin_bytes [OF assms, of w] 1 by (simp add: T_def)
      show "length ([]::buffer) = (if uint (word_of_int (take_bit 8 T) :: byte) AND 3 = 0 then 0
             else if uint (word_of_int (take_bit 8 T) :: byte) AND 3 = 1 then 1
             else if uint (word_of_int (take_bit 8 T) :: byte) AND 3 = 2 then 3 else 7)"
        using T by (simp only: u and_3_mod_4) simp
      show "drop_bit 2 (levin_join (uint (word_of_int (take_bit 8 T) :: byte)) 1 []) = x"
        using T by (simp only: u levin_join.simps drop_bit_eq_div) simp
    qed
  next
    case 2
    define T where "T = 4 * x + 1"
    have T: "0 \<le> T" "T < 65536" "T mod 4 = 1" "T div 4 = x" using 2 assms(1) by (simp_all add: T_def)
    have tb: "take_bit 16 T = T" using T by (simp add: take_bit_int_eq_self)
    have m4: "take_bit 8 T mod 4 = T mod 4"
      using mod_mod_cancel [of 4 "2 ^ 8" T] by (simp add: take_bit_eq_mod)
    show ?thesis
    proof (rule levin_read_back)
      show "Writer_varint w x True
          = (Inr True, w\<lparr>w_buffer := w_buffer w @ word_of_int (take_bit 8 T) #
               [word_of_int (take_bit 8 (drop_bit 8 T))]\<rparr>)"
        using Writer_varint_levin_bytes [OF assms, of w] 2 by (simp add: T_def)
      show "length [word_of_int (take_bit 8 (drop_bit 8 T)) :: byte]
           = (if uint (word_of_int (take_bit 8 T) :: byte) AND 3 = 0 then 0
             else if uint (word_of_int (take_bit 8 T) :: byte) AND 3 = 1 then 1
             else if uint (word_of_int (take_bit 8 T) :: byte) AND 3 = 2 then 3 else 7)"
        using T by (simp only: uint_levin_byte and_3_mod_4 m4) simp
      have "levin_join (uint (word_of_int (take_bit 8 T) :: byte)) 1
               [word_of_int (take_bit 8 (drop_bit 8 T))] = take_bit 16 T"
        by (simp only: levin_join.simps uint_levin_byte) (simp add: join2)
      then show "drop_bit 2 (levin_join (uint (word_of_int (take_bit 8 T) :: byte)) 1
               [word_of_int (take_bit 8 (drop_bit 8 T))]) = x"
        using T by (simp only: tb drop_bit_eq_div) simp
    qed
  next
    case 3
    define T where "T = 4 * x + 2"
    have T: "0 \<le> T" "T < 2 ^ 32" "T mod 4 = 2" "T div 4 = x"
      using 3 assms by (simp_all add: T_def)
    have tb: "take_bit 32 T = T" using T by (simp add: take_bit_int_eq_self)
    have m4: "take_bit 8 T mod 4 = T mod 4"
      using mod_mod_cancel [of 4 "2 ^ 8" T] by (simp add: take_bit_eq_mod)
    show ?thesis
    proof (rule levin_read_back)
      show "Writer_varint w x True
          = (Inr True, w\<lparr>w_buffer := w_buffer w @ word_of_int (take_bit 8 T) #
               [word_of_int (take_bit 8 (drop_bit 8 T)), word_of_int (take_bit 8 (drop_bit 16 T)),
                word_of_int (take_bit 8 (drop_bit 24 T))]\<rparr>)"
        using Writer_varint_levin_bytes [OF assms, of w] 3 by (simp add: T_def)
      show "length [word_of_int (take_bit 8 (drop_bit 8 T)) :: byte,
                word_of_int (take_bit 8 (drop_bit 16 T)),
                word_of_int (take_bit 8 (drop_bit 24 T))]
           = (if uint (word_of_int (take_bit 8 T) :: byte) AND 3 = 0 then 0
             else if uint (word_of_int (take_bit 8 T) :: byte) AND 3 = 1 then 1
             else if uint (word_of_int (take_bit 8 T) :: byte) AND 3 = 2 then 3 else 7)"
        using T by (simp only: uint_levin_byte and_3_mod_4 m4) simp
      have "levin_join (uint (word_of_int (take_bit 8 T) :: byte)) 1
               [word_of_int (take_bit 8 (drop_bit 8 T)), word_of_int (take_bit 8 (drop_bit 16 T)),
                word_of_int (take_bit 8 (drop_bit 24 T))] = take_bit 32 T"
        by (simp only: levin_join.simps uint_levin_byte) (simp add: join4 or.assoc)
      then show "drop_bit 2 (levin_join (uint (word_of_int (take_bit 8 T) :: byte)) 1
               [word_of_int (take_bit 8 (drop_bit 8 T)), word_of_int (take_bit 8 (drop_bit 16 T)),
                word_of_int (take_bit 8 (drop_bit 24 T))]) = x"
        using T by (simp only: tb drop_bit_eq_div) simp
    qed
  qed
qed

lemma levin_vectors:
  "Writer_blob (snd (Writer_varint Writer_new 0 True)) = ''00''"
  "Writer_blob (snd (Writer_varint Writer_new 127 True)) = ''fd01''"
  "Writer_blob (snd (Writer_varint Writer_new 32767 True)) = ''feff0100''"
  "Writer_blob (snd (Writer_varint Writer_new 1073741823 True)) = ''feffffff''"
  by code_simp+

lemma Writer_varint_levin_too_large:
  "1073741823 < v \<Longrightarrow> Writer_varint w v True = (Inl RangeError_value_out_of_range, w)"
  by (simp add: Writer_varint_def)

text \<open>
  Claim C4. For every integer \<open>x\<close> in \<open>[0, 1073741823]\<close>, reading a Levin varint from the
  bytes that \<open>Writer.varint(x, true)\<close> wrote returns \<open>x\<close> and consumes exactly those bytes;
  the Levin encodings of 0, 127, 32767 and 1073741823 are the hex strings \<open>00\<close>, \<open>fd01\<close>,
  \<open>feff0100\<close> and \<open>feffffff\<close>; and encoding 1073741824 raises the range error
  \<open>value out of range\<close>.
\<close>

theorem levin_varint_roundtrip:
  assumes "0 \<le> x" "x \<le> 1073741823"
  shows "levin_roundtrip w x = Inr (x, 0)
       \<and> Writer_blob (snd (Writer_varint Writer_new 0 True)) = ''00''
       \<and> Writer_blob (snd (Writer_varint Writer_new 127 True)) = ''fd01''
       \<and> Writer_blob (snd (Writer_varint Writer_new 32767 True)) = ''feff0100''
       \<and> Writer_blob (snd (Writer_varint Writer_new 1073741823 True)) = ''feffffff''
       \<and> Writer_varint w 1073741824 True = (Inl RangeError_value_out_of_range, w)"
  using levin_roundtrip_ok [OF assms, of w] levin_vectors
    Writer_varint_levin_too_large [of 1073741824 w]
  by simp

theorem levin_varint_roundtrip_witness:
  "levin_roundtrip Writer_new 32767 = Inr (32767, 0)"
  using levin_varint_roundtrip [of 32767 Writer_new] by simp

text \<open>
  Claim C5 says that writing a Levin varint raises a range error for every value outside
  \<open>[0, 1073741823]\<close> and appends nothing. Above the interval the code does so
  (\<open>Writer_varint_levin_too_large\<close>). Below it the only guard of the source,
  \<open>value.greater(1073741823)\<close>, does not fire: for \<open>-1\<close> the writer appends the byte
  \<open>fc\<close> and returns \<open>true\<close>.
\<close>

theorem Writer_varint_levin_negative:
  "Writer_varint Writer_new (- 1) True = (Inr True, \<lparr>w_buffer = [0xfc], w_readIndex = 0\<rparr>)"
  by code_simp

section \<open>Auto-sizing of unsigned integers\<close>

lemma fits_mono: "fits v b' \<Longrightarrow> b' \<le> b \<Longrightarrow> fits v b"
proof -
  assume f: "fits v b'" and le: "b' \<le> b"
  have "(2::int) ^ nat b' \<le> 2 ^ nat b" using le by (intro power_increasing) simp_all
  moreover have "v \<le> 2 ^ nat b' - 1" using f by (simp only: fits_def)
  ultimately have "v \<le> 2 ^ nat b - 1" by linarith
  then show ?thesis by (simp only: fits_def)
qed

lemma determineBits_loop_Inr:
  assumes "0 \<le> v" "sorted_wrt (<) bytes"
  shows "determineBits_loop v bytes = Inr b \<longleftrightarrow>
           (\<exists>byte\<in>set bytes. b = byte * 8 \<and> fits v (byte * 8) \<and>
               (\<forall>byte'\<in>set bytes. byte' < byte \<longrightarrow> \<not> fits v (byte' * 8)))"
  using assms(2)
proof (induction bytes)
  case Nil
  then show ?case by simp
next
  case (Cons a bytes)
  have min: "\<forall>x\<in>set bytes. a < x" using Cons.prems by simp
  have srt: "sorted_wrt (<) bytes" using Cons.prems by simp
  have chk: "(v \<le> (if v > - 1 then 2 ^ nat (a * 8) - 1 else \<bar>2 ^ nat (a * 8 - 1) - 1\<bar>))
              = fits v (a * 8)"
    using assms(1) by (simp add: fits_def)
  show ?case
  proof (cases "fits v (a * 8)")
    case True
    have "determineBits_loop v (a # bytes) = Inr (a * 8)"
      using True chk by (simp add: Let_def)
    moreover have "(\<exists>byte\<in>set (a # bytes). b = byte * 8 \<and> fits v (byte * 8) \<and>
               (\<forall>byte'\<in>set (a # bytes). byte' < byte \<longrightarrow> \<not> fits v (byte' * 8))) = (b = a * 8)"
      using True min by auto
    ultimately show ?thesis by auto
  next
    case False
    have "determineBits_loop v (a # bytes) = determineBits_loop v bytes"
      using False chk by (simp add: Let_def)
    moreover have "(\<exists>byte\<in>set (a # bytes). b = byte * 8 \<and> fits v (byte * 8) \<and>
               (\<forall>byte'\<in>set (a # bytes). byte' < byte \<longrightarrow> \<not> fits v (byte' * 8)))
         = (\<exists>byte\<in>set bytes. b = byte * 8 \<and> fits v (byte * 8) \<and>
               (\<forall>byte'\<in>set bytes. byte' < byte \<longrightarrow> \<not> fits v (byte' * 8)))"
      using False by auto
    ultimately show ?thesis using Cons.IH [OF srt] by simp
  qed
qed

lemma determineBits_loop_Inl:
  assumes "0 \<le> v"
  shows "determineBits_loop v bytes = Inl e \<longleftrightarrow>
           e = RangeError_value_is_out_of_range \<and> (\<forall>byte\<in>set bytes. \<not> fits v (byte * 8))"
proof (induction bytes)
  case Nil
  then show ?case by auto
next
  case (Cons a bytes)
  have chk: "(v \<le> (if v > - 1 then 2 ^ nat (a * 8) - 1 else \<bar>2 ^ nat (a * 8 - 1) - 1\<bar>))
              = fits v (a * 8)"
    using assms(1) by (simp add: fits_def)
  show ?case using Cons.IH chk by (cases "fits v (a * 8)") (simp_all add: Let_def)
qed

lemma supported_widths_bytes:
  "set supported_widths = (\<lambda>byte. byte * 8) ` set [1, 2, 4, 8, 16, 32, 64, 128, 256, 512, 1024]"
  by (simp add: supported_widths_def)

lemma widths_of_bytes:
  "(\<exists>byte\<in>set bytes. b = byte * 8 \<and> fits v (byte * 8) \<and>
               (\<forall>byte'\<in>set bytes. byte' < byte \<longrightarrow> \<not> fits v (byte' * 8)))
   = (b \<in> (\<lambda>byte. byte * 8) ` set bytes \<and> fits v b \<and>
           (\<forall>b'\<in>(\<lambda>byte. byte * 8) ` set bytes. b' < b \<longrightarrow> \<not> fits v b'))"
  for bytes :: "int list"
  by auto

lemma no_width_of_bytes:
  "(\<forall>byte\<in>set bytes. \<not> fits v (byte * 8))
   = (\<forall>b\<in>(\<lambda>byte. byte * 8) ` set bytes. \<not> fits v b)"
  for bytes :: "int list"
  by auto

lemma determineBits_Inr:
  assumes "0 \<le> v"
  shows "determineBits v = Inr b \<longleftrightarrow>
           b \<in> set supported_widths \<and> fits v b \<and>
           (\<forall>b'\<in>set supported_widths. b' < b \<longrightarrow> \<not> fits v b')"
proof -
  have s: "sorted_wrt (<) [1, 2, 4, 8, 16, 32, 64, 128, 256, 512, 1024 :: int]" by simp
  show ?thesis
    unfolding determineBits_def determineBits_loop_Inr [OF assms s] supported_widths_bytes
    by (rule widths_of_bytes)
qed

lemma determineBits_Inl:
  assumes "0 \<le> v"
  shows "determineBits v = Inl e \<longleftrightarrow>
           e = RangeError_value_is_out_of_range \<and> (\<forall>b\<in>set supported_widths. \<not> fits v b)"
  unfolding determineBits_def determineBits_loop_Inl [OF assms] supported_widths_bytes
  by (simp only: no_width_of_bytes)

lemma determineBits_vectors:
  "determineBits 255 = Inr 8" "determineBits 256 = Inr 16"
  "determineBits (2 ^ 32 - 1) = Inr 32" "determineBits (2 ^ 32) = Inr 64"
  by (simp_all add: determineBits_def)

lemma Writer_uint_t_auto:
  assumes "0 \<le> v"
  shows "Writer_uint_t w v None be =
           (case determineBits v of
              Inl e \<Rightarrow> (Inl e, w)
            | Inr b \<Rightarrow> Writer_uint_t w v (Some b) be)"
proof (cases "determineBits v")
  case (Inl e)
  then show ?thesis using assms by (simp add: Writer_uint_t_def)
next
  case (Inr b)
  then have "b \<in> set supported_widths" using determineBits_Inr [OF assms, of b] by simp
  then have "b \<noteq> 0" by (auto simp: supported_widths_def)
  then show ?thesis using Inr assms by (simp add: Writer_uint_t_def)
qed

text \<open>
  Claim C6. Called without a width, the unsigned integer writer selects the smallest of the
  widths 8, 16, 32, ..., 8192 bits whose largest unsigned value is at least the input:
  \<open>determineBits\<close> returns \<open>b\<close> exactly when \<open>b\<close> is a supported width that fits and no
  smaller supported width fits, it raises the range error exactly when no supported width
  fits, and \<open>uint_t\<close> without a width behaves as \<open>uint_t\<close> with the width selected (or
  raises that error). In particular 255 selects 8 bits, 256 selects 16, \<open>2^32 - 1\<close> selects
  32 and \<open>2^32\<close> selects 64.
\<close>

theorem uint_t_auto_sizing:
  assumes "0 \<le> v"
  shows "(determineBits v = Inr b \<longleftrightarrow>
            b \<in> set supported_widths \<and> fits v b \<and>
            (\<forall>b'\<in>set supported_widths. b' < b \<longrightarrow> \<not> fits v b'))
       \<and> (determineBits v = Inl e \<longleftrightarrow>
            e = RangeError_value_is_out_of_range \<and> (\<forall>b\<in>set supported_widths. \<not> fits v b))
       \<and> Writer_uint_t w v None be =
            (case determineBits v of
               Inl e \<Rightarrow> (Inl e, w)
             | Inr b \<Rightarrow> Writer_uint_t w v (Some b) be)
       \<and> determineBits 255 = Inr 8 \<and> determineBits 256 = Inr 16
       \<and> determineBits (2 ^ 32 - 1) = Inr 32 \<and> determineBits (2 ^ 32) = Inr 64"
  using determineBits_Inr [OF assms, of b] determineBits_Inl [OF assms, of e]
    Writer_uint_t_auto [OF assms, of w be] determineBits_vectors
  by (simp only: simp_thms)

theorem uint_t_auto_sizing_witness:
  "Writer_uint_t Writer_new 256 None False = Writer_uint_t Writer_new 256 (Some 16) False"
  using uint_t_auto_sizing [of 256 16 RangeError_value_is_out_of_range Writer_new False]
  by simp

section \<open>Timestamps\<close>

lemma swap64_one_group: "length bs = 8 \<Longrightarrow> Buffer_swap64 bs = Inr (rev bs)"
  by (simp add: Buffer_swap64_def)

lemma Writer_time_t_bytes:
  assumes "0 \<le> ms" "ms \<le> 8640000000000000"
  shows "Writer_time_t w (Date ms) be =
           (Inr (), w\<lparr>w_buffer := w_buffer w @
              (if be then rev (be_bytes 8 (nat (ms div 1000)))
               else be_bytes 8 (nat (ms div 1000)))\<rparr>)"
proof -
  define num where "num = ms div 1000"
  have n0: "0 \<le> num" using assms(1) by (simp add: num_def)
  have "ms div 1000 \<le> 8640000000000000 div 1000" using assms(2) by (rule zdiv_mono1) simp
  then have n1: "num < 256 ^ 8" by (simp add: num_def)
  have "writeUIntBE num (int 8) = be_bytes 8 (nat num)"
    using n0 n1 by (rule writeUIntBE_be_bytes) simp
  then have hex: "Buffer_from_hex (padStart 16 (CHR ''0'') (BigInteger_toString16 num))
                  = be_bytes 8 (nat num)"
    by (simp add: writeUIntBE_def)
  have sw: "Buffer_swap64 (be_bytes 8 (nat num)) = Inr (rev (be_bytes 8 (nat num)))"
    by (rule swap64_one_group) simp
  show ?thesis
    by (simp add: Writer_time_t_def Let_def hex sw Writer_write_def flip: num_def)
qed

text \<open>
  Claim C7, amended. For every valid date at or after the epoch and both flags \<open>be\<close>,
  \<open>Writer.time_t(d, be)\<close> appends exactly the 8 bytes that the general unsigned integer
  writer appends for \<open>floor(ms / 1000)\<close> at width 64 with the opposite endianness flag: the
  default \<open>be = false\<close> writes the most significant byte first.
\<close>

theorem Writer_time_t_as_uint64:
  assumes "0 \<le> ms" "ms \<le> 8640000000000000"
  shows "fst (Writer_time_t w (Date ms) be) = Inr ()
       \<and> snd (Writer_time_t w (Date ms) be) = snd (Writer_uint_t w (ms div 1000) (Some 64) (\<not> be))
       \<and> fst (Writer_uint_t w (ms div 1000) (Some 64) (\<not> be)) = Inr True
       \<and> length (w_buffer (snd (Writer_time_t w (Date ms) be))) = length (w_buffer w) + 8"
proof -
  define num where "num = ms div 1000"
  have n0: "0 \<le> num" using assms(1) by (simp add: num_def)
  have "ms div 1000 \<le> 8640000000000000 div 1000" using assms(2) by (rule zdiv_mono1) simp
  then have n1: "num < 256 ^ 8" by (simp add: num_def)
  have u: "Writer_uint_t w num (Some (8 * int 8)) (\<not> be) =
           (Inr True, w\<lparr>w_buffer := w_buffer w @
              (if \<not> be then be_bytes 8 (nat num) else rev (be_bytes 8 (nat num)))\<rparr>)"
    using n0 n1 by (rule Writer_uint_t_bytes) simp
  show ?thesis
    using u Writer_time_t_bytes [OF assms, of w be] by (simp add: num_def)
qed

theorem Writer_time_t_as_uint64_witness:
  "snd (Writer_time_t Writer_new (Date 1577282076000) True)
     = snd (Writer_uint_t Writer_new 1577282076 (Some 64) False)"
  using Writer_time_t_as_uint64 [of 1577282076000 Writer_new True] by simp

lemma be_bytes_test_date:
  "be_bytes 8 1577282076 = [0x00, 0x00, 0x00, 0x00, 0x5e, 0x03, 0x6a, 0x1c]"
proof -
  have eight: "(8::nat) = Suc (Suc (Suc (Suc (Suc (Suc (Suc (Suc 0)))))))" by simp
  show ?thesis by (subst eight) simp
qed

lemma Writer_time_t_before_epoch:
  "Writer_time_t Writer_new (Date (- 1000)) False
     = (Inr (), \<lparr>w_buffer = [0, 0, 0, 0, 0, 0, 0], w_readIndex = 0\<rparr>)"
  by code_simp

text \<open>
  Claim C7 as stated (the same bytes as the unsigned integer writer with the same flag
  \<open>be\<close>, for every date) fails: for the date of the test suite, 1577282076 seconds, and
  \<open>be = false\<close>, \<open>time_t\<close> writes \<open>000000005e036a1c\<close> while \<open>uint_t\<close> writes
  \<open>1c6a035e00000000\<close>. It also fails before the epoch, where \<open>uint_t\<close> raises a range error
  and \<open>time_t\<close> appends the seven bytes decoded from \<open>00000000000000-1\<close>.
\<close>

theorem Writer_time_t_same_flag_differs:
  "w_buffer (snd (Writer_time_t Writer_new (Date 1577282076000) False))
     = [0x00, 0x00, 0x00, 0x00, 0x5e, 0x03, 0x6a, 0x1c]
   \<and> w_buffer (snd (Writer_uint_t Writer_new (1577282076000 div 1000) (Some 64) False))
     = [0x1c, 0x6a, 0x03, 0x5e, 0x00, 0x00, 0x00, 0x00]
   \<and> snd (Writer_time_t Writer_new (Date 1577282076000) False)
     \<noteq> snd (Writer_uint_t Writer_new (1577282076000 div 1000) (Some 64) False)
   \<and> w_buffer (snd (Writer_time_t Writer_new (Date (- 1000)) False)) = [0, 0, 0, 0, 0, 0, 0]
   \<and> Writer_uint_t Writer_new (- 1000 div 1000) (Some 64) True
     = (Inl RangeError_signed_in_unsigned, Writer_new)"
proof -
  have a: "Writer_time_t Writer_new (Date 1577282076000) False =
           (Inr (), Writer_new\<lparr>w_buffer := w_buffer Writer_new @ be_bytes 8 (nat (1577282076000 div 1000))\<rparr>)"
    using Writer_time_t_bytes [of 1577282076000 Writer_new False] by simp
  have b: "Writer_uint_t Writer_new 1577282076 (Some (8 * int 8)) False =
           (Inr True, Writer_new\<lparr>w_buffer := w_buffer Writer_new @ rev (be_bytes 8 (nat 1577282076))\<rparr>)"
    using Writer_uint_t_bytes [of 1577282076 8 Writer_new False] by simp
  have c: "Writer_uint_t Writer_new (- 1000 div 1000) (Some 64) True
     = (Inl RangeError_signed_in_unsigned, Writer_new)"
    by (simp add: Writer_uint_t_def)
  show ?thesis
    using a b c Writer_time_t_before_epoch
    by (simp add: be_bytes_test_date Writer_new_def)
qed

section \<open>Hashes\<close>





section \<open>Appending to a reader\<close>

lemma Reader_append_valid:
  "chunk_bytes c = Some bs \<Longrightarrow>
   Reader_append r c = (Inr (), r\<lparr>m_buffer := m_buffer r @ bs\<rparr>)"
  by (cases c) (auto simp: Reader_append_def split: if_splits)

lemma Reader_append_invalid:
  "chunk_bytes c = None \<Longrightarrow> Reader_append r c = (Inl Error_unknown_data_type, r)"
  by (cases c) (auto simp: Reader_append_def split: if_splits)

lemma Buffer_slice_from_drop:
  assumes "0 \<le> off" "off \<le> int (length buf)"
  shows "Buffer_slice_from buf off = drop (nat off) buf"
proof -
  have k: "nat off \<le> length buf" using assms by simp
  have s: "clamp_index (length buf) off = nat off" using assms k by (simp add: clamp_index_def)
  have e: "clamp_index (length buf) (int (length buf)) = length buf" by (simp add: clamp_index_def)
  show ?thesis by (simp add: Buffer_slice_from_def Buffer_slice_def s e)
qed

lemma Buffer_slice_from_append:
  assumes "0 \<le> off" "off \<le> int (length buf)"
  shows "Buffer_slice_from (buf @ bs) off = Buffer_slice_from buf off @ bs"
proof -
  have "off \<le> int (length (buf @ bs))" using assms(2) by simp
  then have "Buffer_slice_from (buf @ bs) off = drop (nat off) (buf @ bs)"
    using assms(1) by (intro Buffer_slice_from_drop)
  moreover have "nat off \<le> length buf" using assms by simp
  ultimately show ?thesis using Buffer_slice_from_drop [OF assms] by simp
qed

text \<open>
  Claim C10, amended. For every reader state and every valid chunk, \<open>Reader.append\<close>
  succeeds, leaves the cursor unchanged, keeps every existing byte at its index and makes
  the buffer longer by the number of bytes appended. \<open>unreadBytes\<close> becomes
  \<open>max 0 (length + count - offset)\<close>: it grows by exactly the appended count when the
  cursor is not past the end of the buffer, and then (for a cursor that is not negative
  either) the unread buffer is the old one followed by the chunk.
\<close>

theorem Reader_append_frame:
  assumes "chunk_bytes c = Some bs"
  shows "fst (Reader_append r c) = Inr ()
       \<and> m_current_offset (snd (Reader_append r c)) = m_current_offset r
       \<and> (\<forall>i<length (m_buffer r). m_buffer (snd (Reader_append r c)) ! i = m_buffer r ! i)
       \<and> Reader_length (snd (Reader_append r c)) = Reader_length r + int (length bs)
       \<and> drop (length (m_buffer r)) (m_buffer (snd (Reader_append r c))) = bs
       \<and> Reader_unreadBytes (snd (Reader_append r c))
           = max 0 (Reader_length r + int (length bs) - Reader_offset r)
       \<and> (Reader_offset r \<le> Reader_length r \<longrightarrow>
            Reader_unreadBytes (snd (Reader_append r c))
              = Reader_unreadBytes r + int (length bs))
       \<and> (0 \<le> Reader_offset r \<and> Reader_offset r \<le> Reader_length r \<longrightarrow>
            Reader_unreadBuffer (snd (Reader_append r c)) = Reader_unreadBuffer r @ bs)"
  using Buffer_slice_from_append [of "m_current_offset r" "m_buffer r" bs]
  by (simp add: Reader_append_valid [OF assms] Reader_length_def Reader_offset_def
      Reader_unreadBytes_def Reader_unreadBuffer_def nth_append Let_def)

theorem Reader_append_frame_witness:
  "Reader_unreadBytes (snd (Reader_append \<lparr>m_buffer = [1, 2], m_current_offset = 1\<rparr>
      (BString ''0a0b0c''))) = 4"
  using Reader_append_frame [of "BString ''0a0b0c''" "[0x0a, 0x0b, 0x0c]"
      "\<lparr>m_buffer = [1, 2], m_current_offset = 1\<rparr>"]
  by (simp add: hexval_def Reader_unreadBytes_def Reader_length_def Reader_offset_def)

text \<open>
  Claim C10 as stated (for every reader state \<open>unreadBytes\<close> grows by exactly the appended
  count) fails for a cursor past the end of the buffer: after \<open>skip(5)\<close> on an empty reader
  \<open>unreadBytes\<close> is 0, and after appending 3 bytes it is still 0.
\<close>

theorem Reader_append_unread_past_end:
  "Reader_skip \<lparr>m_buffer = [], m_current_offset = 0\<rparr> 5 = \<lparr>m_buffer = [], m_current_offset = 5\<rparr>
   \<and> Reader_unreadBytes \<lparr>m_buffer = [], m_current_offset = 5\<rparr> = 0
   \<and> Reader_append \<lparr>m_buffer = [], m_current_offset = 5\<rparr> (BBuffer [1, 2, 3])
       = (Inr (), \<lparr>m_buffer = [1, 2, 3], m_current_offset = 5\<rparr>)
   \<and> Reader_unreadBytes \<lparr>m_buffer = [1, 2, 3], m_current_offset = 5\<rparr> = 0
   \<and> Reader_unreadBytes (snd (Reader_append \<lparr>m_buffer = [], m_current_offset = 5\<rparr>
          (BBuffer [1, 2, 3])))
       \<noteq> Reader_unreadBytes \<lparr>m_buffer = [], m_current_offset = 5\<rparr> + 3"
  by (simp add: Reader_skip_def Reader_unreadBytes_def Reader_length_def Reader_offset_def
      Reader_append_def)

section \<open>Reading past the end, and peeking\<close>

lemma Reader_uint_t_not_enough:
  "bits mod 8 = 0 \<Longrightarrow> Reader_unreadBytes r < bits div 8 \<Longrightarrow>
   Reader_uint_t r bits be = (Inl Error_not_enough_bytes, r)"
  by (simp add: Reader_uint_t_def)

lemma Reader_int_t_not_enough:
  "bits mod 8 = 0 \<Longrightarrow> Reader_unreadBytes r < bits div 8 \<Longrightarrow>
   Reader_int_t r bits be = (Inl Error_not_enough_bytes, r)"
  by (simp add: Reader_int_t_def)

lemma Reader_bytes_short_read:
  assumes "0 \<le> m_current_offset r" "m_current_offset r \<le> int (length (m_buffer r))"
    and "Reader_unreadBytes r < count"
  shows "fst (Reader_bytes r count) = Inr (drop (nat (m_current_offset r)) (m_buffer r))"
    and "int (length (drop (nat (m_current_offset r)) (m_buffer r))) < count"
    and "int (length (m_buffer r)) < m_current_offset (snd (Reader_bytes r count))"
proof -
  define len where "len = length (m_buffer r)"
  define off where "off = m_current_offset r"
  have c: "int len - off < count"
    using assms by (simp add: Reader_unreadBytes_def Reader_length_def Reader_offset_def
        len_def off_def Let_def)
  have s: "clamp_index len off = nat off"
    using assms by (simp add: clamp_index_def len_def off_def)
  have e: "clamp_index len (off + count) = len"
    using assms c by (simp add: clamp_index_def len_def off_def)
  have "Buffer_slice (m_buffer r) off (off + count) = drop (nat off) (m_buffer r)"
    using s e by (simp add: Buffer_slice_def len_def)
  then show "fst (Reader_bytes r count) = Inr (drop (nat (m_current_offset r)) (m_buffer r))"
    by (simp add: Reader_bytes_def Reader_offset_def Let_def off_def)
  show "int (length (drop (nat (m_current_offset r)) (m_buffer r))) < count"
    using c assms by (simp add: len_def off_def)
  show "int (length (m_buffer r)) < m_current_offset (snd (Reader_bytes r count))"
    using c by (simp add: Reader_bytes_def Let_def len_def off_def)
qed

lemma varint_scan_cursor:
  "m_current_offset r \<le> int (length (m_buffer r)) \<Longrightarrow>
   m_buffer (snd (varint_scan r)) = m_buffer r \<and>
   m_current_offset (snd (varint_scan r)) \<le> int (length (m_buffer r))"
proof (induction r rule: varint_scan.induct)
  case (1 r)
  show ?case
  proof (cases "Buffer_readUInt8 (m_buffer r) (m_current_offset r)")
    case (Inl e)
    then show ?thesis using "1.prems" by (subst (1 2) varint_scan.simps) simp
  next
    case (Inr b)
    then have lt: "m_current_offset r < int (length (m_buffer r))"
      by (simp add: Buffer_readUInt8_def split: if_splits)
    show ?thesis
    proof (cases "b < 128")
      case True
      then show ?thesis using Inr lt by (subst (1 2) varint_scan.simps) simp
    next
      case False
      have "m_buffer (snd (varint_scan (r\<lparr>m_current_offset := m_current_offset r + 1\<rparr>)))
              = m_buffer (r\<lparr>m_current_offset := m_current_offset r + 1\<rparr>) \<and>
            m_current_offset (snd (varint_scan (r\<lparr>m_current_offset := m_current_offset r + 1\<rparr>)))
              \<le> int (length (m_buffer (r\<lparr>m_current_offset := m_current_offset r + 1\<rparr>)))"
        using Inr False lt by (intro "1.IH") simp_all
      then show ?thesis using Inr False by (subst (1 2) varint_scan.simps) simp
    qed
  qed
qed

lemma varint_scan_leb:
  assumes "0 \<le> x"
  shows "varint_scan \<lparr>m_buffer = pre @ leb x @ post, m_current_offset = int (length pre)\<rparr>
     = (Inr (), \<lparr>m_buffer = pre @ leb x @ post,
                 m_current_offset = int (length pre) + int (length (leb x))\<rparr>)"
  using assms
proof (induction x arbitrary: pre rule: leb.induct)
  case (1 y)
  show ?case
  proof (cases "y < 128")
    case True
    define b where "b = (word_of_int y :: byte)"
    have l: "leb y = [b]" using True by (subst leb.simps) (simp add: b_def)
    have lt: "b < 128" using last_byte(2) [OF "1.prems" True] by (simp add: b_def not_le)
    show ?thesis
      unfolding l by (subst varint_scan.simps) (simp add: Buffer_readUInt8_def lt)
  next
    case False
    define b where "b = (word_of_int (128 + y mod 128) :: byte)"
    have l: "leb y = b # leb (y div 128)" using False by (subst leb.simps) (simp add: b_def)
    have ge: "\<not> b < 128" using cont_byte_ge [of y] by (simp add: b_def not_less)
    have q: "0 \<le> y div 128" using "1.prems" by simp
    have "varint_scan \<lparr>m_buffer = (pre @ [b]) @ leb (y div 128) @ post,
                       m_current_offset = int (length (pre @ [b]))\<rparr>
     = (Inr (), \<lparr>m_buffer = (pre @ [b]) @ leb (y div 128) @ post,
                 m_current_offset = int (length (pre @ [b])) + int (length (leb (y div 128)))\<rparr>)"
      using False q by (rule "1.IH")
    then have IH: "varint_scan \<lparr>m_buffer = pre @ b # leb (y div 128) @ post,
                       m_current_offset = int (length pre) + 1\<rparr>
     = (Inr (), \<lparr>m_buffer = pre @ b # leb (y div 128) @ post,
                 m_current_offset = int (length pre) + int (length (b # leb (y div 128)))\<rparr>)"
      by (simp add: add.commute add.left_commute)
    show ?thesis
      unfolding l
      by (subst varint_scan.simps) (simp add: Buffer_readUInt8_def ge IH)
  qed
qed

lemma Reader_varint_plain:
  assumes "0 \<le> x" "x < 2 ^ 1024"
  shows "Reader_varint \<lparr>m_buffer = pre @ Varint_encode x @ post,
                         m_current_offset = int (length pre)\<rparr> peek False
     = (Inr x, \<lparr>m_buffer = pre @ Varint_encode x @ post,
                 m_current_offset = (if peek then int (length pre)
                                     else int (length pre) + int (length (Varint_encode x)))\<rparr>)"
proof -
  have sl: "Buffer_slice (pre @ leb x @ post) (int (length pre))
              (int (length pre) + int (length (leb x))) = leb x"
    by (rule Buffer_slice_middle)
  have dec: "Varint_decode (leb x) = Inr x"
    using Varint_decode_encode [OF assms(1)] assms by (simp add: Varint_encode_leb)
  show ?thesis
    unfolding Varint_encode_leb [OF assms(1)] Reader_varint_def
    by (simp add: varint_scan_leb [OF assms(1)] Let_def Reader_offset_def sl dec)
qed

text \<open>
  Claim C3 says that every read operation fails with an error when fewer bytes remain than
  it needs, and does not leave the cursor past the end of the buffer. \<open>uint_t\<close> and
  \<open>int_t\<close> do fail with the cursor untouched (\<open>Reader_uint_t_not_enough\<close>,
  \<open>Reader_int_t_not_enough\<close>); the Levin varint reads byte by byte with \<open>uint8_t\<close>, so it
  consumes the bytes that are there and fails at the first missing one; and the plain
  varint fails with the cursor inside the buffer (\<open>varint_scan_cursor\<close>). The positional reads have no
  such check (\<open>Reader_bytes_short_read\<close>): with 2 bytes left, \<open>bytes(5)\<close> returns the 2
  bytes and leaves the cursor at 5; \<open>hex\<close>, \<open>hash\<close> and \<open>time_t\<close> do the same.
\<close>

theorem Reader_bytes_short_buffer:
  "Reader_unreadBytes \<lparr>m_buffer = [1, 2], m_current_offset = 0\<rparr> = 2
   \<and> Reader_bytes \<lparr>m_buffer = [1, 2], m_current_offset = 0\<rparr> 5
     = (Inr [1, 2], \<lparr>m_buffer = [1, 2], m_current_offset = 5\<rparr>)
   \<and> Reader_hex \<lparr>m_buffer = [1, 2], m_current_offset = 0\<rparr> 5
     = (Inr ''0102'', \<lparr>m_buffer = [1, 2], m_current_offset = 5\<rparr>)
   \<and> Reader_hash \<lparr>m_buffer = [1, 2], m_current_offset = 0\<rparr> 32
     = (Inr ''0102'', \<lparr>m_buffer = [1, 2], m_current_offset = 32\<rparr>)
   \<and> Reader_time_t \<lparr>m_buffer = [1, 2], m_current_offset = 0\<rparr> False
     = (Inr (Date 258000), \<lparr>m_buffer = [1, 2], m_current_offset = 8\<rparr>)"
  by code_simp

text \<open>
  Claim C8 says that \<open>varint\<close> with \<open>peek = true\<close> returns the value and leaves the cursor
  where it was, for both kinds of varint. The plain branch does so (\<open>Reader_varint_plain\<close>);
  the Levin branch never looks at \<open>peek\<close>: on the Levin encoding \<open>fd01\<close> of 127 it returns
  127 and leaves the cursor at 2.
\<close>

theorem Reader_varint_levin_peek_moves_cursor:
  "Reader_varint \<lparr>m_buffer = [0xfd, 0x01], m_current_offset = 0\<rparr> True True
     = (Inr 127, \<lparr>m_buffer = [0xfd, 0x01], m_current_offset = 2\<rparr>)"
  by code_simp

end
